theory Spec2Isabelle
  imports Main "HOL-Library.Multiset"
begin

section \<open>SimpleLang compiler: data model\<close>

text \<open>
  A shallow embedding of \<^verbatim>\<open>compiler.c\<close>: lexer, symbol table, emitter and the
  one-pass recursive-descent code generator. The global variables of the C program
  become the fields of one record that every function takes and returns; the input
  \<^verbatim>\<open>FILE*\<close> is the list of characters not yet read. \<^verbatim>\<open>printToken\<close> only traces to the
  console and is left out.
\<close>

definition MAX_TOKEN_LEN :: nat where "MAX_TOKEN_LEN = 100"
definition MAX_VARS :: nat where "MAX_VARS = 100"
definition MAX_CODE_LINES :: nat where "MAX_CODE_LINES = 1000"

text \<open>Width of one row of \<^verbatim>\<open>char assembly[MAX_CODE_LINES][100]\<close>.\<close>

definition ASM_LINE_LEN :: nat where "ASM_LINE_LEN = 100"

datatype TokenType =
    TOKEN_INT | TOKEN_IDENTIFIER | TOKEN_NUMBER | TOKEN_ASSIGN
  | TOKEN_PLUS | TOKEN_MINUS | TOKEN_IF | TOKEN_EQUAL
  | TOKEN_LPAREN | TOKEN_RPAREN | TOKEN_LBRACE | TOKEN_RBRACE | TOKEN_SEMICOLON
  | TOKEN_EOF | TOKEN_UNKNOWN

record Token =
  type :: TokenType
  text' :: string

record Variable =
  name :: string
  address :: int

text \<open>
  \<^verbatim>\<open>vars\<close> holds the first \<^verbatim>\<open>varCount\<close> entries of the symbol table and \<^verbatim>\<open>assembly\<close> the
  first \<^verbatim>\<open>asmLine\<close> rows of the output buffer, so both counters are the lengths of the
  lists. \<^verbatim>\<open>labelCount\<close> and \<^verbatim>\<open>currentAddress\<close> are C \<^verbatim>\<open>int\<close>s. The address counter grows by
  one per stored symbol, of which there are at most \<^verbatim>\<open>MAX_VARS\<close>, and the label counter
  by two per \<^verbatim>\<open>if\<close>, each of which stores six lines in the bounded output buffer; from
  their initial values neither comes near the range of \<^verbatim>\<open>int\<close>, so they are unbounded
  integers here.
\<close>

record state =
  vars :: "Variable list"
  labelCount :: int
  currentAddress :: int
  assembly :: "string list"
  currentToken :: Token
  hasToken :: bool
  input :: string

definition varCount :: "state \<Rightarrow> nat" where
  "varCount s = length (vars s)"

definition asmLine :: "state \<Rightarrow> nat" where
  "asmLine s = length (assembly s)"

text \<open>
  The globals as initialised in the source, reading the given file contents. The pushback
  slot \<^verbatim>\<open>currentToken\<close> has no initialiser: it is zero, the first token type and the
  empty text.
\<close>

definition initState :: "string \<Rightarrow> state" where
  "initState src =
     \<lparr> vars = [], labelCount = 0, currentAddress = 16, assembly = [],
       currentToken = \<lparr> type = TOKEN_INT, text' = [] \<rparr>, hasToken = False, input = src \<rparr>"

section \<open>Lexer\<close>

text \<open>The \<^verbatim>\<open>ctype.h\<close> classifiers in the C locale.\<close>

definition isspace :: "char \<Rightarrow> bool" where
  "isspace c = (let n = (of_char c :: nat) in n = 32 \<or> (9 \<le> n \<and> n \<le> 13))"

definition isalpha :: "char \<Rightarrow> bool" where
  "isalpha c = (let n = (of_char c :: nat) in (65 \<le> n \<and> n \<le> 90) \<or> (97 \<le> n \<and> n \<le> 122))"

definition isdigit :: "char \<Rightarrow> bool" where
  "isdigit c = (let n = (of_char c :: nat) in 48 \<le> n \<and> n \<le> 57)"

definition isalnum :: "char \<Rightarrow> bool" where
  "isalnum c = (isalpha c \<or> isdigit c)"

text \<open>\<^verbatim>\<open>while ((c = fgetc(file)) != EOF && isspace(c));\<close> The result still starts with
  the character \<^verbatim>\<open>c\<close> the loop stopped at; the empty list is \<^verbatim>\<open>EOF\<close>.\<close>

fun skipSpace :: "string \<Rightarrow> string" where
  "skipSpace [] = []"
| "skipSpace (c # cs) = (if isspace c then skipSpace cs else c # cs)"

text \<open>
  The two scanning loops
  \<^verbatim>\<open>while ((c = fgetc(file)) != EOF && p(c)) { if (len < MAX_TOKEN_LEN - 1) token.text[len++] = c; }\<close>
  followed by \<^verbatim>\<open>if (c != EOF) ungetc(c, file)\<close>: the text collected so far and the
  characters left in the file.
\<close>

fun scanWhile :: "(char \<Rightarrow> bool) \<Rightarrow> string \<Rightarrow> string \<Rightarrow> string \<times> string" where
  "scanWhile p txt [] = (txt, [])"
| "scanWhile p txt (c # cs) =
     (if p c
      then scanWhile p (if length txt < MAX_TOKEN_LEN - 1 then txt @ [c] else txt) cs
      else (txt, c # cs))"

text \<open>The \<^verbatim>\<open>switch\<close> over a single character other than \<^verbatim>\<open>=\<close>.\<close>

definition singleCharType :: "char \<Rightarrow> TokenType" where
  "singleCharType c =
     (if c = CHR ''+'' then TOKEN_PLUS
      else if c = CHR ''-'' then TOKEN_MINUS
      else if c = CHR ''('' then TOKEN_LPAREN
      else if c = CHR '')'' then TOKEN_RPAREN
      else if c = CHR ''{'' then TOKEN_LBRACE
      else if c = CHR ''}'' then TOKEN_RBRACE
      else if c = CHR '';'' then TOKEN_SEMICOLON
      else TOKEN_UNKNOWN)"

text \<open>A one-character C string: the character, or the empty string for a NUL byte.\<close>

definition charText :: "char \<Rightarrow> string" where
  "charText c = (if c = CHR 0x00 then [] else [c])"

definition getNextToken :: "state \<Rightarrow> Token \<times> state" where
  "getNextToken s =
     (if hasToken s then (currentToken s, s\<lparr>hasToken := False\<rparr>)
      else
        (case skipSpace (input s) of
           [] \<Rightarrow> (\<lparr> type = TOKEN_EOF, text' = [] \<rparr>, s\<lparr>input := []\<rparr>)
         | c # cs \<Rightarrow>
             if isalpha c then
               (case scanWhile isalnum [c] cs of
                  (txt, rest) \<Rightarrow>
                    (\<lparr> type = (if txt = ''int'' then TOKEN_INT
                                else if txt = ''if'' then TOKEN_IF
                                else TOKEN_IDENTIFIER),
                       text' = txt \<rparr>,
                     s\<lparr>input := rest\<rparr>))
             else if isdigit c then
               (case scanWhile isdigit [c] cs of
                  (txt, rest) \<Rightarrow> (\<lparr> type = TOKEN_NUMBER, text' = txt \<rparr>, s\<lparr>input := rest\<rparr>))
             else if c = CHR ''='' then
               (case cs of
                  [] \<Rightarrow> (\<lparr> type = TOKEN_ASSIGN, text' = ''='' \<rparr>, s\<lparr>input := []\<rparr>)
                | d # ds \<Rightarrow>
                    if d = CHR ''='' then (\<lparr> type = TOKEN_EQUAL, text' = ''=='' \<rparr>, s\<lparr>input := ds\<rparr>)
                    else (\<lparr> type = TOKEN_ASSIGN, text' = ''='' \<rparr>, s\<lparr>input := d # ds\<rparr>))
             else (\<lparr> type = singleCharType c, text' = charText c \<rparr>, s\<lparr>input := cs\<rparr>)))"

definition ungetToken :: "Token \<Rightarrow> state \<Rightarrow> state" where
  "ungetToken token s = s\<lparr>currentToken := token, hasToken := True\<rparr>"

section \<open>Outcomes\<close>

text \<open>
  Every \<^verbatim>\<open>fprintf(stderr, ...); exit(1);\<close> of the source is one diagnostic:
  \<^item> \<open>TooManyVariables\<close>: "Error: Too many variables"
  \<^item> \<open>ExpectedOperandAfterOperator\<close>: "Error: Expected number or identifier after operator"
  \<^item> \<open>ExpectedOperandInExpression\<close>: "Error: Expected identifier or number in expression"
  \<^item> \<open>ExpectedIdentifierAfterInt\<close>: "Error: Expected identifier after 'int'"
  \<^item> \<open>ExpectedSemicolonAfterDeclaration\<close>: "Error: Expected ';' after variable declaration"
  \<^item> \<open>ExpectedAssignAfterIdentifier\<close>: "Error: Expected '=' after identifier"
  \<^item> \<open>ExpectedSemicolonAfterAssignment\<close>: "Error: Expected ';' after assignment"
  \<^item> \<open>ExpectedLParenAfterIf\<close>: "Error: Expected '(' after 'if'"
  \<^item> \<open>ExpectedIdentifierInCondition\<close>: "Error: Expected identifier in if condition"
  \<^item> \<open>ExpectedEqualInCondition\<close>: "Error: Expected '==' in if condition"
  \<^item> \<open>ExpectedOperandInCondition\<close>: "Error: Expected identifier or number in if condition"
  \<^item> \<open>ExpectedRParenAfterCondition\<close>: "Error: Expected ')' after if condition"
  \<^item> \<open>ExpectedLBraceAfterCondition\<close>: "Error: Expected '{' after if condition"
  \<^item> \<open>UnexpectedEOFInBlock\<close>: "Error: Unexpected EOF while parsing if block"
  \<^item> \<open>UnexpectedToken t\<close>: "Error: Unexpected token '%s' (type: %d)" for the token \<open>t\<close>
\<close>

datatype diagnostic =
    TooManyVariables
  | ExpectedOperandAfterOperator
  | ExpectedOperandInExpression
  | ExpectedIdentifierAfterInt
  | ExpectedSemicolonAfterDeclaration
  | ExpectedAssignAfterIdentifier
  | ExpectedSemicolonAfterAssignment
  | ExpectedLParenAfterIf
  | ExpectedIdentifierInCondition
  | ExpectedEqualInCondition
  | ExpectedOperandInCondition
  | ExpectedRParenAfterCondition
  | ExpectedLBraceAfterCondition
  | UnexpectedEOFInBlock
  | UnexpectedToken Token

text \<open>
  A run of the compiler stops early in one of two ways: \<open>Fatal d\<close> is the diagnosed
  exit with status 1; \<open>OutOfBounds\<close> is a store outside a fixed-size array of the
  C program, which the source neither checks nor reports and after which its behaviour
  is undefined.
\<close>

datatype failure = Fatal diagnostic | OutOfBounds

definition andThen :: "failure + 'a \<Rightarrow> ('a \<Rightarrow> failure + 'b) \<Rightarrow> failure + 'b" where
  "andThen m f = (case m of Inl e \<Rightarrow> Inl e | Inr x \<Rightarrow> f x)"

section \<open>Code emitter\<close>

text \<open>The \<^verbatim>\<open>%d\<close> conversion of \<^verbatim>\<open>printf\<close>.\<close>

fun digits :: "nat \<Rightarrow> string" where
  "digits n =
     (if n < 10 then [''0123456789'' ! n]
      else digits (n div 10) @ [''0123456789'' ! (n mod 10)])"

declare digits.simps [simp del]

definition showInt :: "int \<Rightarrow> string" where
  "showInt i = (if i < 0 then CHR ''-'' # digits (nat (- i)) else digits (nat i))"

text \<open>
  \<^verbatim>\<open>vsprintf(assembly[asmLine++], fmt, args)\<close>, given the formatted line. The source
  makes no check: the store stays inside the buffer only when row \<^verbatim>\<open>asmLine\<close> exists
  and the line with its terminating NUL fits the row.
\<close>

definition emit :: "string \<Rightarrow> state \<Rightarrow> failure + state" where
  "emit line s =
     (if asmLine s < MAX_CODE_LINES \<and> length line < ASM_LINE_LEN
      then Inr (s\<lparr>assembly := assembly s @ [line]\<rparr>)
      else Inl OutOfBounds)"

section \<open>Symbol table\<close>

text \<open>The search loop of \<^verbatim>\<open>getVarAddress\<close>: the address of the first entry with the name.\<close>

fun findVar :: "Variable list \<Rightarrow> string \<Rightarrow> int option" where
  "findVar [] n = None"
| "findVar (v # vs) n = (if name v = n then Some (address v) else findVar vs n)"

definition getVarAddress :: "string \<Rightarrow> state \<Rightarrow> failure + (int \<times> state)" where
  "getVarAddress n s =
     (case findVar (vars s) n of
        Some a \<Rightarrow> Inr (a, s)
      | None \<Rightarrow>
          if varCount s \<ge> MAX_VARS then Inl (Fatal TooManyVariables)
          else Inr (currentAddress s,
                    s\<lparr>vars := vars s @ [\<lparr> name = n, address = currentAddress s \<rparr>],
                      currentAddress := currentAddress s + 1\<rparr>))"

section \<open>Parser and code generator\<close>

text \<open>\<^verbatim>\<open>(op.type == TOKEN_PLUS) ? "ADD" : "SUB"\<close>\<close>

definition opName :: "Token \<Rightarrow> string" where
  "opName op = (if type op = TOKEN_PLUS then ''ADD'' else ''SUB'')"

text \<open>
  The part of both branches of \<^verbatim>\<open>compileExpression\<close> that follows a consumed
  \<^verbatim>\<open>+\<close> or \<^verbatim>\<open>-\<close>: read the right operand and emit the operation. The address is
  resolved before \<^verbatim>\<open>emit\<close> is entered, being its argument.
\<close>

definition compileOperand :: "Token \<Rightarrow> state \<Rightarrow> failure + state" where
  "compileOperand op s =
     (case getNextToken s of
        (rhs, s1) \<Rightarrow>
          if type rhs = TOKEN_NUMBER then emit (opName op @ ''I '' @ text' rhs) s1
          else if type rhs = TOKEN_IDENTIFIER then
            andThen (getVarAddress (text' rhs) s1) (\<lambda>(a, s2). emit (opName op @ '' '' @ showInt a) s2)
          else Inl (Fatal ExpectedOperandAfterOperator))"

text \<open>\<^verbatim>\<open>emit("STA %d", getVarAddress(targetVar))\<close>\<close>

definition emitStore :: "string \<Rightarrow> state \<Rightarrow> failure + state" where
  "emitStore targetVar s =
     andThen (getVarAddress targetVar s) (\<lambda>(a, s1). emit (''STA '' @ showInt a) s1)"

text \<open>\<^verbatim>\<open>emit("LDA %d", getVarAddress(var))\<close>\<close>

definition emitLoad :: "string \<Rightarrow> state \<Rightarrow> failure + state" where
  "emitLoad var s =
     andThen (getVarAddress var s) (\<lambda>(a, s1). emit (''LDA '' @ showInt a) s1)"

definition compileExpression :: "string \<Rightarrow> state \<Rightarrow> failure + state" where
  "compileExpression targetVar s =
     (case getNextToken s of
        (token, s1) \<Rightarrow>
          if type token = TOKEN_NUMBER then
            andThen (emit (''LDI '' @ text' token) s1) (\<lambda>s2.
              case getNextToken s2 of
                (op, s3) \<Rightarrow>
                  andThen
                    (if type op = TOKEN_PLUS \<or> type op = TOKEN_MINUS
                     then compileOperand op s3
                     else Inr (ungetToken op s3))
                    (emitStore targetVar))
          else if type token = TOKEN_IDENTIFIER then
            (case getNextToken s1 of
               (op, s2) \<Rightarrow>
                 if type op = TOKEN_PLUS \<or> type op = TOKEN_MINUS then
                   andThen (emitLoad (text' token) s2) (\<lambda>s3.
                     andThen (compileOperand op s3) (emitStore targetVar))
                 else
                   andThen (emitLoad (text' token) s2) (\<lambda>s3.
                     andThen (emitStore targetVar s3) (\<lambda>s4. Inr (ungetToken op s4))))
          else Inl (Fatal ExpectedOperandInExpression))"

text \<open>
  The \<^verbatim>\<open>TOKEN_INT\<close> branch of \<^verbatim>\<open>compileStatement\<close>, after the keyword has been read.
\<close>

definition compileDeclaration :: "state \<Rightarrow> failure + state" where
  "compileDeclaration s =
     (case getNextToken s of
        (token, s1) \<Rightarrow>
          if type token \<noteq> TOKEN_IDENTIFIER then Inl (Fatal ExpectedIdentifierAfterInt)
          else
            andThen (getVarAddress (text' token) s1) (\<lambda>(a, s2).
              case getNextToken s2 of
                (token, s3) \<Rightarrow>
                  if type token \<noteq> TOKEN_SEMICOLON
                  then Inl (Fatal ExpectedSemicolonAfterDeclaration)
                  else Inr s3))"

text \<open>
  The \<^verbatim>\<open>TOKEN_IDENTIFIER\<close> branch of \<^verbatim>\<open>compileStatement\<close>, after the identifier
  \<^verbatim>\<open>var\<close> has been read.
\<close>

definition compileAssignment :: "string \<Rightarrow> state \<Rightarrow> failure + state" where
  "compileAssignment var s =
     (case getNextToken s of
        (token, s1) \<Rightarrow>
          if type token \<noteq> TOKEN_ASSIGN then Inl (Fatal ExpectedAssignAfterIdentifier)
          else
            andThen (compileExpression var s1) (\<lambda>s2.
              case getNextToken s2 of
                (token, s3) \<Rightarrow>
                  if type token \<noteq> TOKEN_SEMICOLON
                  then Inl (Fatal ExpectedSemicolonAfterAssignment)
                  else Inr s3))"

text \<open>
  The \<^verbatim>\<open>TOKEN_IF\<close> branch of \<^verbatim>\<open>compileStatement\<close> from after the keyword up to
  \<^verbatim>\<open>emit("%s:", labelTrue)\<close>: the header is parsed, the two labels are taken from
  \<^verbatim>\<open>labelCount\<close> and the comparison and jumps are emitted. The result carries
  \<^verbatim>\<open>labelEnd\<close> for the line that closes the construct.
\<close>

definition compileIfHeader :: "state \<Rightarrow> failure + (string \<times> state)" where
  "compileIfHeader s =
     (case getNextToken s of
        (token, s1) \<Rightarrow>
     if type token \<noteq> TOKEN_LPAREN then Inl (Fatal ExpectedLParenAfterIf) else
     (case getNextToken s1 of
        (lhs, s2) \<Rightarrow>
     if type lhs \<noteq> TOKEN_IDENTIFIER then Inl (Fatal ExpectedIdentifierInCondition) else
     (case getNextToken s2 of
        (op, s3) \<Rightarrow>
     if type op \<noteq> TOKEN_EQUAL then Inl (Fatal ExpectedEqualInCondition) else
     (case getNextToken s3 of
        (rhs, s4) \<Rightarrow>
     if type rhs \<noteq> TOKEN_IDENTIFIER \<and> type rhs \<noteq> TOKEN_NUMBER
     then Inl (Fatal ExpectedOperandInCondition) else
     (case getNextToken s4 of
        (token, s5) \<Rightarrow>
     if type token \<noteq> TOKEN_RPAREN then Inl (Fatal ExpectedRParenAfterCondition) else
     (case getNextToken s5 of
        (token, s6) \<Rightarrow>
     if type token \<noteq> TOKEN_LBRACE then Inl (Fatal ExpectedLBraceAfterCondition) else
     (let labelTrue = ''L'' @ showInt (labelCount s6);
          labelEnd = ''L'' @ showInt (labelCount s6 + 1);
          s7 = s6\<lparr>labelCount := labelCount s6 + 2\<rparr>
      in
      andThen (emitLoad (text' lhs) s7) (\<lambda>s8.
      andThen (if type rhs = TOKEN_NUMBER then emit (''SUBI '' @ text' rhs) s8
               else andThen (getVarAddress (text' rhs) s8)
                      (\<lambda>(a, s9). emit (''SUB '' @ showInt a) s9)) (\<lambda>s10.
      andThen (emit (''JZ '' @ labelTrue) s10) (\<lambda>s11.
      andThen (emit (''JMP '' @ labelEnd) s11) (\<lambda>s12.
      andThen (emit (labelTrue @ '':'') s12) (\<lambda>s13.
      Inr (labelEnd, s13)))))))))))))"

section \<open>Consumption of the input\<close>

text \<open>
  What is still to be read: every unread character counts twice and a pushed-back token
  once, so that reading a token never increases the amount and reading any token but
  the end-of-file token decreases it, also after the token is pushed back and read again.
\<close>

definition pending :: "state \<Rightarrow> nat" where
  "pending s = 2 * length (input s) + (if hasToken s then 1 else 0)"

lemma andThen_InrE:
  assumes "andThen m f = Inr y"
  obtains x where "m = Inr x" "f x = Inr y"
  using assms by (cases m) (simp_all add: andThen_def)

lemma andThen_cong [fundef_cong]:
  "m = m' \<Longrightarrow> (\<And>x. m' = Inr x \<Longrightarrow> f x = f' x) \<Longrightarrow> andThen m f = andThen m' f'"
  by (auto simp: andThen_def split: sum.splits)

lemma andThen_simps [simp]:
  "andThen (Inl e) f = Inl e" "andThen (Inr x) f = f x"
  by (simp_all add: andThen_def)

lemma andThen_Inr_iff: "andThen m f = Inr y \<longleftrightarrow> (\<exists>x. m = Inr x \<and> f x = Inr y)"
  by (cases m) simp_all

lemma length_skipSpace: "length (skipSpace cs) \<le> length cs"
  by (induction cs) auto

lemma length_scanWhile: "scanWhile p acc cs = (t, r) \<Longrightarrow> length r \<le> length cs"
  by (induction cs arbitrary: acc) (auto split: if_splits dest: le_SucI)

lemma getNextToken_pending:
  assumes "getNextToken s = (tok, s1)"
  shows "\<not> hasToken s1" and "pending s1 \<le> pending s"
    and "type tok \<noteq> TOKEN_EOF \<Longrightarrow> pending s1 < pending s"
proof -
  show "\<not> hasToken s1" using assms
    by (auto simp: getNextToken_def split: if_splits list.splits prod.splits)
  have *: "length (skipSpace (input s)) \<le> length (input s)" by (rule length_skipSpace)
  show "pending s1 \<le> pending s" using assms *
    by (auto simp: getNextToken_def pending_def split: if_splits list.splits prod.splits
        dest!: length_scanWhile)
  show "pending s1 < pending s" if "type tok \<noteq> TOKEN_EOF" using assms * that
    by (auto simp: getNextToken_def pending_def split: if_splits list.splits prod.splits
        dest!: length_scanWhile)
qed


lemma emit_InrD: "emit l s = Inr s' \<Longrightarrow> s' = s\<lparr>assembly := assembly s @ [l]\<rparr>"
  by (auto simp: emit_def split: if_splits)

lemma getVarAddress_frame:
  assumes "getVarAddress n s = Inr (a, s')"
  shows "input s' = input s" "hasToken s' = hasToken s" "currentToken s' = currentToken s"
    "assembly s' = assembly s" "labelCount s' = labelCount s"
  using assms by (auto simp: getVarAddress_def split: option.splits if_splits)

lemma pending_emit: "emit l s = Inr s' \<Longrightarrow> pending s' = pending s"
  by (auto dest!: emit_InrD simp: pending_def)

lemma pending_getVarAddress: "getVarAddress n s = Inr (a, s') \<Longrightarrow> pending s' = pending s"
  by (simp add: pending_def getVarAddress_frame)

lemma pending_emitLoad: "emitLoad v s = Inr s' \<Longrightarrow> pending s' = pending s"
  by (auto simp: emitLoad_def andThen_Inr_iff pending_emit pending_getVarAddress)

lemma pending_emitStore: "emitStore v s = Inr s' \<Longrightarrow> pending s' = pending s"
  by (auto simp: emitStore_def andThen_Inr_iff pending_emit pending_getVarAddress)

lemma pending_ungetToken: "pending (ungetToken t s) \<le> pending s + 1"
  by (simp add: ungetToken_def pending_def)

lemma pending_compileOperand: "compileOperand op s = Inr s' \<Longrightarrow> pending s' \<le> pending s"
  by (auto simp: compileOperand_def andThen_Inr_iff pending_emit pending_getVarAddress
      split: prod.splits if_splits dest: getNextToken_pending(2))

lemma pending_compileExpression:
  assumes "compileExpression T s = Inr s'"
  shows "pending s' \<le> pending s"
proof -
  obtain token s1 where t: "getNextToken s = (token, s1)" by (cases "getNextToken s")
  show ?thesis
  proof (cases "type token = TOKEN_NUMBER")
    case True
    then have lt: "pending s1 < pending s" using getNextToken_pending(3)[OF t] by simp
    from assms t True obtain s2 where
      e: "emit (''LDI '' @ text' token) s1 = Inr s2"
      and r: "(case getNextToken s2 of (op, s3) \<Rightarrow>
                andThen (if type op = TOKEN_PLUS \<or> type op = TOKEN_MINUS
                         then compileOperand op s3 else Inr (ungetToken op s3))
                        (emitStore T)) = Inr s'"
      by (auto simp: compileExpression_def andThen_Inr_iff)
    obtain op s3 where o: "getNextToken s2 = (op, s3)" by (cases "getNextToken s2")
    from r o obtain s6 where
      m: "(if type op = TOKEN_PLUS \<or> type op = TOKEN_MINUS
               then compileOperand op s3 else Inr (ungetToken op s3)) = Inr s6"
      and st: "emitStore T s6 = Inr s'"
      by (auto simp: andThen_Inr_iff)
    have "pending s6 \<le> pending s3 + 1"
      using m pending_compileOperand[of op s3 s6] pending_ungetToken[of op s3]
      by (auto split: if_splits)
    with pending_emit[OF e] getNextToken_pending(2)[OF o] pending_emitStore[OF st] lt
    show ?thesis by simp
  next
    case False
    with assms t have id: "type token = TOKEN_IDENTIFIER"
      by (auto simp: compileExpression_def split: if_splits)
    then have lt: "pending s1 < pending s" using getNextToken_pending(3)[OF t] by simp
    obtain op s2 where o: "getNextToken s1 = (op, s2)" by (cases "getNextToken s1")
    from assms t id o False have "pending s' \<le> pending s2 + 1"
      using pending_ungetToken[of op]
      by (auto simp: compileExpression_def andThen_Inr_iff split: if_splits
          dest!: pending_emitLoad pending_emitStore pending_compileOperand)
         (metis | simp)+
    with getNextToken_pending(2)[OF o] lt show ?thesis by simp
  qed
qed


lemma pending_compileDeclaration: "compileDeclaration s = Inr s' \<Longrightarrow> pending s' \<le> pending s"
proof -
  assume a: "compileDeclaration s = Inr s'"
  obtain token s1 where t: "getNextToken s = (token, s1)" by (cases "getNextToken s")
  from a t obtain a1 s2 where g: "getVarAddress (text' token) s1 = Inr (a1, s2)"
    and r: "(case getNextToken s2 of (token, s3) \<Rightarrow>
              if type token \<noteq> TOKEN_SEMICOLON
              then Inl (Fatal ExpectedSemicolonAfterDeclaration) else Inr s3) = Inr s'"
    by (auto simp: compileDeclaration_def andThen_Inr_iff split: if_splits)
  obtain t2 s3 where t2: "getNextToken s2 = (t2, s3)" by (cases "getNextToken s2")
  with r have "s' = s3" by (auto split: if_splits)
  with getNextToken_pending(2)[OF t] getNextToken_pending(2)[OF t2] pending_getVarAddress[OF g]
  show ?thesis by simp
qed

lemma pending_compileAssignment: "compileAssignment v s = Inr s' \<Longrightarrow> pending s' \<le> pending s"
proof -
  assume a: "compileAssignment v s = Inr s'"
  obtain token s1 where t: "getNextToken s = (token, s1)" by (cases "getNextToken s")
  from a t obtain s2 where g: "compileExpression v s1 = Inr s2"
    and r: "(case getNextToken s2 of (token, s3) \<Rightarrow>
              if type token \<noteq> TOKEN_SEMICOLON
              then Inl (Fatal ExpectedSemicolonAfterAssignment) else Inr s3) = Inr s'"
    by (auto simp: compileAssignment_def andThen_Inr_iff split: if_splits)
  obtain t2 s3 where t2: "getNextToken s2 = (t2, s3)" by (cases "getNextToken s2")
  with r have "s' = s3" by (auto split: if_splits)
  with getNextToken_pending(2)[OF t] getNextToken_pending(2)[OF t2] pending_compileExpression[OF g]
  show ?thesis by simp
qed

lemma compileIfHeader_InrE:
  assumes "compileIfHeader s = Inr (labelEnd, s')"
  obtains t1 s1 lhs s2 op s3 rhs s4 t5 s5 t6 s6 s8 s10 where
    "getNextToken s = (t1, s1)" "type t1 = TOKEN_LPAREN"
    "getNextToken s1 = (lhs, s2)" "type lhs = TOKEN_IDENTIFIER"
    "getNextToken s2 = (op, s3)" "type op = TOKEN_EQUAL"
    "getNextToken s3 = (rhs, s4)" "type rhs = TOKEN_IDENTIFIER \<or> type rhs = TOKEN_NUMBER"
    "getNextToken s4 = (t5, s5)" "type t5 = TOKEN_RPAREN"
    "getNextToken s5 = (t6, s6)" "type t6 = TOKEN_LBRACE"
    "emitLoad (text' lhs) (s6\<lparr>labelCount := labelCount s6 + 2\<rparr>) = Inr s8"
    "(if type rhs = TOKEN_NUMBER then emit (''SUBI '' @ text' rhs) s8
      else andThen (getVarAddress (text' rhs) s8) (\<lambda>(a, s9). emit (''SUB '' @ showInt a) s9))
       = Inr s10"
    "labelEnd = ''L'' @ showInt (labelCount s6 + 1)"
    "asmLine s10 + 3 \<le> MAX_CODE_LINES"
    "s' = s10\<lparr>assembly := assembly s10 @
            [''JZ L'' @ showInt (labelCount s6), ''JMP L'' @ showInt (labelCount s6 + 1),
             ''L'' @ showInt (labelCount s6) @ '':'']\<rparr>"
proof -
  obtain t1 s1 where 1: "getNextToken s = (t1, s1)" by (cases "getNextToken s")
  obtain lhs s2 where 2: "getNextToken s1 = (lhs, s2)" by (cases "getNextToken s1")
  obtain op s3 where 3: "getNextToken s2 = (op, s3)" by (cases "getNextToken s2")
  obtain rhs s4 where 4: "getNextToken s3 = (rhs, s4)" by (cases "getNextToken s3")
  obtain t5 s5 where 5: "getNextToken s4 = (t5, s5)" by (cases "getNextToken s4")
  obtain t6 s6 where 6: "getNextToken s5 = (t6, s6)" by (cases "getNextToken s5")
  from assms 1 2 3 4 5 6 have ty: "type t1 = TOKEN_LPAREN" "type lhs = TOKEN_IDENTIFIER"
    "type op = TOKEN_EQUAL" "type rhs = TOKEN_IDENTIFIER \<or> type rhs = TOKEN_NUMBER"
    "type t5 = TOKEN_RPAREN" "type t6 = TOKEN_LBRACE"
    by (auto simp: compileIfHeader_def split: if_splits)
  have eq: "compileIfHeader s =
      andThen (emitLoad (text' lhs) (s6\<lparr>labelCount := labelCount s6 + 2\<rparr>)) (\<lambda>s8.
      andThen (if type rhs = TOKEN_NUMBER then emit (''SUBI '' @ text' rhs) s8
               else andThen (getVarAddress (text' rhs) s8)
                      (\<lambda>(a, s9). emit (''SUB '' @ showInt a) s9)) (\<lambda>s10.
      andThen (emit (''JZ L'' @ showInt (labelCount s6)) s10) (\<lambda>s11.
      andThen (emit (''JMP L'' @ showInt (labelCount s6 + 1)) s11) (\<lambda>s12.
      andThen (emit (''L'' @ showInt (labelCount s6) @ '':'') s12) (\<lambda>s13.
      Inr (''L'' @ showInt (labelCount s6 + 1), s13))))))"
    using 1 2 3 4 5 6 ty by (auto simp: compileIfHeader_def Let_def)
  from assms[unfolded eq] obtain s8 s10 s11 s12 s13 where
    l: "emitLoad (text' lhs) (s6\<lparr>labelCount := labelCount s6 + 2\<rparr>) = Inr s8"
    and c: "(if type rhs = TOKEN_NUMBER then emit (''SUBI '' @ text' rhs) s8
      else andThen (getVarAddress (text' rhs) s8) (\<lambda>(a, s9). emit (''SUB '' @ showInt a) s9))
       = Inr s10"
    and j: "emit (''JZ L'' @ showInt (labelCount s6)) s10 = Inr s11"
       "emit (''JMP L'' @ showInt (labelCount s6 + 1)) s11 = Inr s12"
       "emit (''L'' @ showInt (labelCount s6) @ '':'') s12 = Inr s13"
    and e0: "Inr (''L'' @ showInt (labelCount s6 + 1), s13) = (Inr (labelEnd, s') :: failure + string \<times> state)"
    by (elim andThen_InrE) 
  from e0 have e: "labelEnd = ''L'' @ showInt (labelCount s6 + 1)" and [simp]: "s13 = s'"
    by simp_all
  from j have "asmLine s10 + 3 \<le> MAX_CODE_LINES"
    by (auto simp: emit_def asmLine_def split: if_splits)
  moreover from j have "s' = s10\<lparr>assembly := assembly s10 @
            [''JZ L'' @ showInt (labelCount s6), ''JMP L'' @ showInt (labelCount s6 + 1),
             ''L'' @ showInt (labelCount s6) @ '':'']\<rparr>"
    by (auto dest!: emit_InrD)
  ultimately show ?thesis using that[OF 1 ty(1) 2 ty(2) 3 ty(3) 4 ty(4) 5 ty(5) 6 ty(6) l c e]
    by blast
qed

lemma pending_compileIfHeader:
  assumes "compileIfHeader s = Inr (labelEnd, s')"
  shows "pending s' \<le> pending s"
proof -
  from assms show ?thesis
  proof (rule compileIfHeader_InrE)
    fix t1 s1 lhs s2 op s3 rhs s4 t5 s5 t6 s6 s8 s10
    assume g: "getNextToken s = (t1, s1)" "getNextToken s1 = (lhs, s2)"
      "getNextToken s2 = (op, s3)" "getNextToken s3 = (rhs, s4)"
      "getNextToken s4 = (t5, s5)" "getNextToken s5 = (t6, s6)"
    assume l: "emitLoad (text' lhs) (s6\<lparr>labelCount := labelCount s6 + 2\<rparr>) = Inr s8"
    assume c: "(if type rhs = TOKEN_NUMBER then emit (''SUBI '' @ text' rhs) s8
      else andThen (getVarAddress (text' rhs) s8) (\<lambda>(a, s9). emit (''SUB '' @ showInt a) s9))
       = Inr s10"
    assume s': "s' = s10\<lparr>assembly := assembly s10 @
            [''JZ L'' @ showInt (labelCount s6), ''JMP L'' @ showInt (labelCount s6 + 1),
             ''L'' @ showInt (labelCount s6) @ '':'']\<rparr>"
    have "pending s10 = pending s8" using c
      by (auto simp: andThen_Inr_iff pending_emit pending_getVarAddress split: if_splits)
    moreover have "pending s8 = pending s6" using pending_emitLoad[OF l] by (simp add: pending_def)
    moreover have "pending s' = pending s10" using s' by (simp add: pending_def)
    ultimately show ?thesis
      using g[THEN getNextToken_pending(2)] by simp
  qed
qed


section \<open>Statements\<close>

text \<open>
  \<^verbatim>\<open>compileStatement\<close>, and the loop
  \<^verbatim>\<open>while ((token = getNextToken(file)).type != TOKEN_RBRACE) { ... }\<close> of its
  \<^verbatim>\<open>TOKEN_IF\<close> branch as \<open>compileIfBlock\<close>, which calls it back for every statement
  of the block.
\<close>

function compileStatement :: "state \<Rightarrow> failure + state"
    and compileIfBlock :: "state \<Rightarrow> failure + state" where
  "compileStatement s =
     (case getNextToken s of
        (token, s1) \<Rightarrow>
          if type token = TOKEN_EOF then Inr s1
          else if type token = TOKEN_INT then compileDeclaration s1
          else if type token = TOKEN_IDENTIFIER then compileAssignment (text' token) s1
          else if type token = TOKEN_IF then
            andThen (compileIfHeader s1) (\<lambda>(labelEnd, s2).
              andThen (compileIfBlock s2) (\<lambda>s3. emit (labelEnd @ '':'') s3))
          else if type token = TOKEN_SEMICOLON then Inr s1
          else if type token = TOKEN_RBRACE then Inr (ungetToken token s1)
          else Inl (Fatal (UnexpectedToken token)))"
| "compileIfBlock s =
     (case getNextToken s of
        (token, s1) \<Rightarrow>
          if type token \<noteq> TOKEN_RBRACE then
            (if type token = TOKEN_EOF then Inl (Fatal UnexpectedEOFInBlock)
             else andThen (compileStatement (ungetToken token s1)) compileIfBlock)
          else Inr s1)"
  by pat_completeness auto

lemma getNextToken_ungetToken: "getNextToken (ungetToken t s) = (t, s\<lparr>currentToken := t, hasToken := False\<rparr>)"
  by (simp add: getNextToken_def ungetToken_def)

lemma pending_partial:
  "compileStatement_compileIfBlock_dom (Inl s) \<Longrightarrow>
     (\<forall>s'. compileStatement s = Inr s' \<longrightarrow>
        pending s' \<le> pending s \<and>
        (type (fst (getNextToken s)) \<noteq> TOKEN_RBRACE \<and> type (fst (getNextToken s)) \<noteq> TOKEN_EOF
           \<longrightarrow> pending s' < pending s))"
  "compileStatement_compileIfBlock_dom (Inr s) \<Longrightarrow>
     (\<forall>s'. compileIfBlock s = Inr s' \<longrightarrow> pending s' < pending s)"
proof (induction rule: compileStatement_compileIfBlock.pinduct)
  case (1 s)
  obtain token s1 where t: "getNextToken s = (token, s1)" by (cases "getNextToken s")
  note le = getNextToken_pending(2)[OF t] and lt = getNextToken_pending(3)[OF t]
    and nh = getNextToken_pending(1)[OF t]
  show ?case
  proof (intro allI impI)
    fix s' assume r: "compileStatement s = Inr s'"
    note r' = r[unfolded compileStatement.psimps[OF 1(1)] t, simplified]
    consider (c_eof) "type token = TOKEN_EOF" | (c_int) "type token = TOKEN_INT"
      | (c_ident) "type token = TOKEN_IDENTIFIER" | (c_if) "type token = TOKEN_IF"
      | (c_semi) "type token = TOKEN_SEMICOLON" | (c_rbrace) "type token = TOKEN_RBRACE"
      | (c_other) "type token \<notin> {TOKEN_EOF, TOKEN_INT, TOKEN_IDENTIFIER, TOKEN_IF, TOKEN_SEMICOLON, TOKEN_RBRACE}"
      by auto
    then show "pending s' \<le> pending s \<and>
        (type (fst (getNextToken s)) \<noteq> TOKEN_RBRACE \<and> type (fst (getNextToken s)) \<noteq> TOKEN_EOF
           \<longrightarrow> pending s' < pending s)"
    proof cases
      case c_eof with r' le t show ?thesis by simp
    next
      case c_int with r' lt t pending_compileDeclaration[of s1 s'] show ?thesis by simp
    next
      case c_ident with r' lt t pending_compileAssignment[of "text' token" s1 s'] show ?thesis by simp
    next
      case c_semi with r' lt t show ?thesis by simp
    next
      case c_rbrace with r' lt t pending_ungetToken[of token s1] show ?thesis by simp
    next
      case c_other with r' show ?thesis by simp
    next
      case c_if
      with r' obtain labelEnd s2 s3 where h: "compileIfHeader s1 = Inr (labelEnd, s2)"
        and b: "compileIfBlock s2 = Inr s3" and e: "emit (labelEnd @ '':'') s3 = Inr s'"
        by (auto simp: andThen_Inr_iff)
      have "pending s3 < pending s2"
        using 1(2)[OF t[symmetric] _ _ _ _ h refl] c_if b by simp
      with pending_compileIfHeader[OF h] pending_emit[OF e] lt c_if t show ?thesis by simp
    qed
  qed
next
  case (2 s)
  obtain token s1 where t: "getNextToken s = (token, s1)" by (cases "getNextToken s")
  note le = getNextToken_pending(2)[OF t] and lt = getNextToken_pending(3)[OF t]
    and nh = getNextToken_pending(1)[OF t]
  show ?case
  proof (intro allI impI)
    fix s' assume r: "compileIfBlock s = Inr s'"
    note r' = r[unfolded compileIfBlock.psimps[OF 2(1)] t, simplified]
    show "pending s' < pending s"
    proof (cases "type token = TOKEN_RBRACE")
      case True with r' lt show ?thesis by simp
    next
      case False
      with r' have ne: "type token \<noteq> TOKEN_EOF" by (auto split: if_splits)
      with r' False obtain s2 where c: "compileStatement (ungetToken token s1) = Inr s2"
        and b: "compileIfBlock s2 = Inr s'" by (auto simp: andThen_Inr_iff)
      have "pending s2 < pending (ungetToken token s1)"
        using 2(2)[OF t[symmetric] False ne] c False ne by (simp add: getNextToken_ungetToken)
      moreover have "pending (ungetToken token s1) \<le> pending s"
        using lt[OF ne] nh by (simp add: pending_def ungetToken_def)
      moreover have "pending s' < pending s2" using 2(3)[OF t[symmetric] False ne c] b by simp
      ultimately show ?thesis by simp
    qed
  qed
qed

termination compileStatement
proof (relation "inv_image (less_than <*lex*> less_than)
         (\<lambda>x. case x of Inl s \<Rightarrow> (pending s, 0::nat) | Inr s \<Rightarrow> (pending s, 1::nat))",
       goal_cases)
  case 1 show ?case by (intro wf_inv_image wf_lex_prod wf_less_than)
next
  case (2 s token s1 p labelEnd s2)
  then show ?case
    using getNextToken_pending(3)[of s token s1] pending_compileIfHeader[of s1 labelEnd s2]
    by simp
next
  case (3 s token s1)
  then show ?case
    using getNextToken_pending(3)[of s token s1] getNextToken_pending(1)[of s token s1]
    by (auto simp: pending_def ungetToken_def)
next
  case (4 s token s1 s2)
  have t: "getNextToken s = (token, s1)" using 4(1) by simp
  have "fst (getNextToken (ungetToken token s1)) = token"
    by (simp add: getNextToken_ungetToken)
  with pending_partial(1)[OF 4(5)] 4(2,3,4)
  have "pending s2 < pending (ungetToken token s1)" by simp
  moreover have "pending (ungetToken token s1) \<le> pending s"
    using getNextToken_pending(3)[OF t 4(3)] getNextToken_pending(1)[OF t]
    by (simp add: pending_def ungetToken_def)
  ultimately show ?case by simp
qed

declare compileStatement.simps [simp del] compileIfBlock.simps [simp del]


text \<open>
  The driver loop \<^verbatim>\<open>while (1) { ... }\<close> of \<^verbatim>\<open>compile\<close>. Nothing bounds its number of
  rounds, so a run that never leaves the loop is the value \<open>None\<close>.
\<close>

partial_function (option) compile :: "state \<Rightarrow> (failure + state) option" where
  "compile s =
     (case getNextToken s of
        (token, s1) \<Rightarrow>
          if type token = TOKEN_EOF then Some (Inr s1)
          else
            (case compileStatement (ungetToken token s1) of
               Inl e \<Rightarrow> Some (Inl e)
             | Inr s2 \<Rightarrow> compile s2))"

declare compile.simps [code]

section \<open>What a run leaves behind\<close>

text \<open>
  Observations on the output buffer and the symbol table, used to state how one state of
  a compilation relates to a later one. The jump lines of an \<^verbatim>\<open>if\<close> are the only lines
  that start with \<^verbatim>\<open>J\<close>; a label line is the letter \<^verbatim>\<open>L\<close>, a number as \<^verbatim>\<open>%d\<close> prints
  it, and a colon.
\<close>

definition isJZ :: "string \<Rightarrow> bool" where
  "isJZ l = (take 3 l = ''JZ '')"

definition isJMP :: "string \<Rightarrow> bool" where
  "isJMP l = (take 4 l = ''JMP '')"

definition isNumeral :: "string \<Rightarrow> bool" where
  "isNumeral r = (let d = (if take 1 r = ''-'' then drop 1 r else r) in d \<noteq> [] \<and> list_all isdigit d)"

definition isLabel :: "string \<Rightarrow> bool" where
  "isLabel l \<longleftrightarrow>
     take 1 l = ''L'' \<and> drop 1 l \<noteq> [] \<and> last l = CHR '':'' \<and> isNumeral (butlast (drop 1 l))"

text \<open>
  The jumps and labels among the lines \<open>ls\<close> are those of \<open>m\<close> constructs whose labels
  are taken from the counter one after the other, starting at \<open>n\<close>: the \<open>k\<close>-th \<^verbatim>\<open>JZ\<close>
  goes to label \<open>n + 2k\<close> and the \<open>k\<close>-th \<^verbatim>\<open>JMP\<close> to label \<open>n + 2k + 1\<close>, and the label
  lines are those of the \<open>2m\<close> labels from \<open>n\<close> on, each once, in some order.
\<close>

definition labelRun :: "int \<Rightarrow> nat \<Rightarrow> string list \<Rightarrow> bool" where
  "labelRun n m ls \<longleftrightarrow>
     filter isJZ ls = map (\<lambda>k. ''JZ L'' @ showInt (n + 2 * int k)) [0..<m] \<and>
     filter isJMP ls = map (\<lambda>k. ''JMP L'' @ showInt (n + 2 * int k + 1)) [0..<m] \<and>
     mset (filter isLabel ls) = mset (map (\<lambda>i. ''L'' @ showInt (n + int i) @ '':'') [0..<2 * m])"

text \<open>
  Every stored address lies below the next free one and no two entries share an address.
\<close>

definition symtabOk :: "state \<Rightarrow> bool" where
  "symtabOk s \<longleftrightarrow>
     list_all (\<lambda>v. address v < currentAddress s) (vars s) \<and> distinct (map address (vars s))"

text \<open>Every binding of the earlier state is still in force in the later one.\<close>

definition keeps :: "state \<Rightarrow> state \<Rightarrow> bool" where
  "keeps s s' \<longleftrightarrow>
     (\<forall>n a. findVar (vars s) n = Some a \<longrightarrow> findVar (vars s') n = Some a) \<and>
     (symtabOk s \<longrightarrow> symtabOk s')"

text \<open>
  The later state extends the output of the earlier one, by lines whose jumps use the
  labels counted in between, and keeps its bindings.
\<close>

definition advance :: "state \<Rightarrow> state \<Rightarrow> bool" where
  "advance s s' \<longleftrightarrow>
     (\<exists>ls m. assembly s' = assembly s @ ls \<and> labelCount s' = labelCount s + 2 * int m \<and>
        labelRun (labelCount s) m ls) \<and> keeps s s'"

text \<open>
  The loop over the statements of a block, told by the states it passes through: from
  \<open>s\<close> the statements of the block compile one after the other, leaving the states \<open>xs\<close>,
  none of them starts with a closing brace or at the end of the file, and the token after
  the last one is the closing brace, read in \<open>sb\<close>.
\<close>

fun blockStatements :: "state \<Rightarrow> state list \<Rightarrow> state \<Rightarrow> bool" where
  "blockStatements s [] sb \<longleftrightarrow>
     type (fst (getNextToken s)) = TOKEN_RBRACE \<and> sb = snd (getNextToken s)"
| "blockStatements s (x # xs) sb \<longleftrightarrow>
     type (fst (getNextToken s)) \<noteq> TOKEN_RBRACE \<and> type (fst (getNextToken s)) \<noteq> TOKEN_EOF \<and>
     compileStatement (ungetToken (fst (getNextToken s)) (snd (getNextToken s))) = Inr x \<and>
     blockStatements x xs sb"

lemma digit_char_value:
  assumes "d < 10"
  shows "of_char (''0123456789'' ! d) - 48 = d" "''0123456789'' ! d \<noteq> CHR ''-''"
    "CHR ''-'' \<noteq> ''0123456789'' ! d" "isdigit (''0123456789'' ! d)"
proof -
  from assms have "d = 0 \<or> d = 1 \<or> d = 2 \<or> d = 3 \<or> d = 4 \<or> d = 5 \<or> d = 6 \<or> d = 7 \<or>
    d = 8 \<or> d = 9" by arith
  then show "of_char (''0123456789'' ! d) - 48 = d" "''0123456789'' ! d \<noteq> CHR ''-''"
    "CHR ''-'' \<noteq> ''0123456789'' ! d" "isdigit (''0123456789'' ! d)"
    by (elim disjE; simp add: isdigit_def)+
qed

lemma digits_value: "foldl (\<lambda>a c. 10 * a + (of_char c - 48)) 0 (digits n) = n"
proof (induction n rule: digits.induct)
  case (1 n)
  show ?case
  proof (cases "n < 10")
    case True
    then show ?thesis by (subst digits.simps) (simp add: digit_char_value)
  next
    case False
    with 1 show ?thesis by (subst digits.simps) (simp add: digit_char_value)
  qed
qed

lemma digits_inj: "digits m = digits n \<Longrightarrow> m = n"
  by (drule arg_cong[where f = "foldl (\<lambda>a c. 10 * a + (of_char c - 48)) (0::nat)"])
     (simp only: digits_value)

lemma digits_no_minus: "CHR ''-'' # x \<noteq> digits n"
proof (induction n arbitrary: x rule: digits.induct)
  case (1 n)
  show ?case
  proof (cases "n < 10")
    case True
    then show ?thesis by (subst digits.simps) (simp add: digit_char_value)
  next
    case False
    have "digits (n div 10) \<noteq> []" by (subst digits.simps) simp
    then obtain y ys where y: "digits (n div 10) = y # ys" by (cases "digits (n div 10)") auto
    with 1[OF False, of ys] have "y \<noteq> CHR ''-''" by auto
    with False y show ?thesis by (subst digits.simps) simp
  qed
qed

lemma showInt_inj: "showInt i = showInt j \<Longrightarrow> i = j"
  using digits_no_minus[of "digits (nat (- i))" "nat j"] digits_no_minus[of "digits (nat (- j))" "nat i"]
  by (auto simp: showInt_def split: if_splits dest!: digits_inj)

lemma digits_isdigit: "digits n \<noteq> [] \<and> list_all isdigit (digits n)"
proof (induction n rule: digits.induct)
  case (1 n)
  show ?case
  proof (cases "n < 10")
    case True
    then show ?thesis by (subst (1 2) digits.simps) (simp add: digit_char_value)
  next
    case False
    with 1 show ?thesis by (subst (1 2) digits.simps) (simp add: digit_char_value)
  qed
qed

lemma isNumeral_showInt: "isNumeral (showInt k)"
  using digits_isdigit[of "nat k"] digits_isdigit[of "nat (- k)"] digits_no_minus[of _ "nat k"]
  by (cases "digits (nat k)") (auto simp: isNumeral_def showInt_def)

lemma isLabel_label [simp]: "isLabel (CHR ''L'' # showInt k @ '':'')"
  using isNumeral_showInt[of k] by (simp add: isLabel_def butlast_append)

lemma not_isLabel [simp]:
  "\<not> isLabel (CHR ''L'' # CHR ''D'' # x)" "c \<noteq> CHR ''L'' \<Longrightarrow> \<not> isLabel (c # x)"
  by (auto simp: isLabel_def isNumeral_def isdigit_def)

lemma not_isLabel_op [simp]: "\<not> isLabel (opName op @ x)"
  by (simp add: opName_def)

lemma isJump_simps [simp]:
  "isJZ (CHR ''J'' # CHR ''Z'' # CHR '' '' # x)" "isJMP (CHR ''J'' # CHR ''M'' # CHR ''P'' # CHR '' '' # x)"
  "\<not> isJMP (CHR ''J'' # CHR ''Z'' # x)" "\<not> isJZ (CHR ''J'' # CHR ''M'' # x)"
  "\<not> isJZ (CHR ''L'' # x)" "\<not> isJMP (CHR ''L'' # x)" "\<not> isJZ (CHR ''S'' # x)"
  "\<not> isJMP (CHR ''S'' # x)" "\<not> isJZ (opName op @ x)" "\<not> isJMP (opName op @ x)"
  by (simp_all add: isJZ_def isJMP_def opName_def)

lemma labelRun_Nil [simp]: "labelRun n 0 []"
  by (simp add: labelRun_def)

lemma map_upt_shift:
  "map f [0..<m + m'] = map f [0..<m] @ map (\<lambda>k. f (m + k)) [0..<m']"
  by (induction m') simp_all

lemma labelRun_append:
  assumes "labelRun n m ls" "labelRun (n + 2 * int m) m' ls'"
  shows "labelRun n (m + m') (ls @ ls')"
proof -
  have e: "n + 2 * int (m + k) = n + 2 * int m + 2 * int k"
    "n + int (2 * m + k) = n + 2 * int m + int k" for k by simp_all
  have d: "2 * (m + m') = 2 * m + 2 * m'" by simp
  show ?thesis using assms unfolding labelRun_def filter_append d map_upt_shift e
    by simp
qed

lemma labelRun_plain:
  "\<not> isJZ l \<Longrightarrow> \<not> isJMP l \<Longrightarrow> \<not> isLabel l \<Longrightarrow> labelRun n 0 [l]"
  by (simp add: labelRun_def)

lemma labelRun_if:
  assumes "labelRun (n + 2) m body"
    and "\<not> isJZ l1" "\<not> isJMP l1" "\<not> isLabel l1" "\<not> isJZ l2" "\<not> isJMP l2" "\<not> isLabel l2"
  shows "labelRun n (Suc m)
           ([l1, l2, ''JZ L'' @ showInt n, ''JMP L'' @ showInt (n + 1), ''L'' @ showInt n @ '':''] @
            body @ [''L'' @ showInt (n + 1) @ '':''])"
proof -
  have e: "n + 2 * int (1 + k) = n + 2 + 2 * int k" "n + int (2 + k) = n + 2 + int k" for k
    by simp_all
  have d: "Suc m = 1 + m" "2 * (1 + m) = 2 + 2 * m" by simp_all
  have u: "[0..<1] = [0]" "[0..<2] = [0, 1]" by (simp_all add: upt_rec)
  have j: "isJZ (''JZ L'' @ showInt n)" "isJMP (''JMP L'' @ showInt (n + 1))"
    "\<not> isJMP (''JZ L'' @ showInt n)" "\<not> isJZ (''JMP L'' @ showInt (n + 1))"
    "\<not> isJZ (''L'' @ showInt n @ '':'')" "\<not> isJMP (''L'' @ showInt n @ '':'')"
    "\<not> isJZ (''L'' @ showInt (n + 1) @ '':'')" "\<not> isJMP (''L'' @ showInt (n + 1) @ '':'')"
    "\<not> isLabel (''JZ L'' @ showInt n)" "\<not> isLabel (''JMP L'' @ showInt (n + 1))"
    "isLabel (''L'' @ showInt n @ '':'')" "isLabel (''L'' @ showInt (n + 1) @ '':'')"
    by simp_all
  from assms(1) have b: "filter isJZ body = map (\<lambda>k. ''JZ L'' @ showInt (n + 2 + 2 * int k)) [0..<m]"
    "filter isJMP body = map (\<lambda>k. ''JMP L'' @ showInt (n + 2 + 2 * int k + 1)) [0..<m]"
    "mset (filter isLabel body) = mset (map (\<lambda>i. ''L'' @ showInt (n + 2 + int i) @ '':'') [0..<2 * m])"
    by (simp_all add: labelRun_def)
  show ?thesis
    unfolding labelRun_def d map_upt_shift u e
    using assms(2-) b j by (simp add: algebra_simps)
qed

lemma keeps_refl [simp]: "keeps s s"
  by (simp add: keeps_def)

lemma keeps_trans: "keeps s t \<Longrightarrow> keeps t u \<Longrightarrow> keeps s u"
  by (simp add: keeps_def)

lemma keeps_same: "vars t = vars s \<Longrightarrow> currentAddress t = currentAddress s \<Longrightarrow> keeps s t"
  by (simp add: keeps_def symtabOk_def)

lemma advance_refl [simp]: "advance s s"
  unfolding advance_def by (intro conjI exI[of _ "[]"] exI[of _ 0]) simp_all

lemma advance_trans:
  assumes "advance s t" "advance t u"
  shows "advance s u"
proof -
  from assms(1) obtain ls m where 1: "assembly t = assembly s @ ls"
    "labelCount t = labelCount s + 2 * int m" "labelRun (labelCount s) m ls" and k1: "keeps s t"
    by (auto simp: advance_def)
  from assms(2) obtain ls' m' where 2: "assembly u = assembly t @ ls'"
    "labelCount u = labelCount t + 2 * int m'" "labelRun (labelCount t) m' ls'" and k2: "keeps t u"
    by (auto simp: advance_def)
  have "labelRun (labelCount s) (m + m') (ls @ ls')"
    using labelRun_append[OF 1(3)] 2(3) 1(2) by simp
  moreover have "assembly u = assembly s @ (ls @ ls')" using 1(1) 2(1) by simp
  moreover have "labelCount u = labelCount s + 2 * int (m + m')" using 1(2) 2(2) by simp
  ultimately show ?thesis using keeps_trans[OF k1 k2] unfolding advance_def by blast
qed

lemma advance_same:
  assumes "vars t = vars s" "currentAddress t = currentAddress s" "labelCount t = labelCount s"
    "assembly t = assembly s"
  shows "advance s t"
  unfolding advance_def using assms keeps_same[of t s]
  by (intro conjI exI[of _ "[]"] exI[of _ 0]) simp_all

lemma getNextToken_frame:
  assumes "getNextToken s = (t, s1)"
  shows "vars s1 = vars s" "labelCount s1 = labelCount s" "currentAddress s1 = currentAddress s"
    "assembly s1 = assembly s"
  using assms by (auto simp: getNextToken_def split: if_splits list.splits prod.splits)

lemma advance_getNextToken: "getNextToken s = (t, s1) \<Longrightarrow> advance s s1"
  by (rule advance_same) (simp_all add: getNextToken_frame)

lemma advance_ungetToken: "advance s (ungetToken t s)"
  by (rule advance_same) (simp_all add: ungetToken_def)

lemma advance_emit:
  assumes "emit l s = Inr s'" "\<not> isJZ l" "\<not> isJMP l" "\<not> isLabel l"
  shows "advance s s'"
proof -
  from emit_InrD[OF assms(1)] have s': "s' = s\<lparr>assembly := assembly s @ [l]\<rparr>" .
  have "keeps s s'" unfolding s' by (rule keeps_same) simp_all
  then show ?thesis unfolding advance_def using labelRun_plain[OF assms(2,3,4)] s'
    by (intro conjI exI[of _ "[l]"] exI[of _ 0]) simp_all
qed

lemma findVar_append:
  "findVar (vs @ ws) n = (case findVar vs n of Some a \<Rightarrow> Some a | None \<Rightarrow> findVar ws n)"
  by (induction vs) auto

lemma getVarAddress_Inr:
  assumes "getVarAddress n s = Inr (a, s')"
  shows "findVar (vars s') n = Some a" "keeps s s'"
proof -
  show "findVar (vars s') n = Some a" using assms
    by (auto simp: getVarAddress_def findVar_append split: option.splits if_splits)
  show "keeps s s'"
  proof (cases "findVar (vars s) n")
    case (Some b) with assms show ?thesis by (simp add: getVarAddress_def)
  next
    case None
    with assms have s': "s' = s\<lparr>vars := vars s @ [\<lparr> name = n, address = currentAddress s \<rparr>],
                      currentAddress := currentAddress s + 1\<rparr>"
      by (auto simp: getVarAddress_def split: if_splits)
    show ?thesis unfolding keeps_def s'
      by (auto simp: findVar_append symtabOk_def list_all_iff)
  qed
qed

lemma advance_getVarAddress:
  assumes "getVarAddress n s = Inr (a, s')"
  shows "advance s s'"
proof -
  note f = getVarAddress_frame[OF assms]
  have "assembly s' = assembly s @ []" "labelCount s' = labelCount s + 2 * int 0"
    by (simp_all add: f)
  then show ?thesis
    unfolding advance_def using getVarAddress_Inr(2)[OF assms] labelRun_Nil by blast
qed


lemma advance_resolve_emit:
  assumes "andThen (getVarAddress n s) (\<lambda>(a, s1). emit (f a) s1) = Inr s'"
    and "\<And>a. \<not> isJZ (f a)" "\<And>a. \<not> isJMP (f a)" "\<And>a. \<not> isLabel (f a)"
  shows "advance s s'"
proof -
  from assms(1) obtain a s1 where g: "getVarAddress n s = Inr (a, s1)"
    and e: "emit (f a) s1 = Inr s'"
    by (auto elim!: andThen_InrE)
  show ?thesis
    by (rule advance_trans[OF advance_getVarAddress[OF g] advance_emit[OF e assms(2,3,4)]])
qed

lemma advance_emitLoad: "emitLoad v s = Inr s' \<Longrightarrow> advance s s'"
  unfolding emitLoad_def by (erule advance_resolve_emit) (simp_all add: isJZ_def isJMP_def)

lemma advance_emitStore: "emitStore v s = Inr s' \<Longrightarrow> advance s s'"
  unfolding emitStore_def by (erule advance_resolve_emit) (simp_all add: isJZ_def isJMP_def)

lemma advance_compileOperand:
  assumes "compileOperand op s = Inr s'"
  shows "advance s s'"
proof -
  obtain rhs s1 where g: "getNextToken s = (rhs, s1)" by (cases "getNextToken s")
  have "advance s1 s'"
  proof (cases "type rhs = TOKEN_NUMBER")
    case True
    with assms g have "emit (opName op @ ''I '' @ text' rhs) s1 = Inr s'"
      by (simp add: compileOperand_def)
    then show ?thesis by (rule advance_emit) (simp_all add: isJZ_def isJMP_def opName_def)
  next
    case False
    with assms g have "andThen (getVarAddress (text' rhs) s1)
        (\<lambda>(a, s2). emit (opName op @ '' '' @ showInt a) s2) = Inr s'"
      by (simp add: compileOperand_def split: if_splits)
    then show ?thesis
      by (rule advance_resolve_emit) (simp_all add: isJZ_def isJMP_def opName_def)
  qed
  with advance_getNextToken[OF g] show ?thesis by (rule advance_trans)
qed

lemma advance_compileExpression:
  assumes "compileExpression T s = Inr s'"
  shows "advance s s'"
proof -
  obtain token s1 where t: "getNextToken s = (token, s1)" by (cases "getNextToken s")
  note a1 = advance_getNextToken[OF t]
  show ?thesis
  proof (cases "type token = TOKEN_NUMBER")
    case True
    from assms t True obtain s2 where
      e: "emit (''LDI '' @ text' token) s1 = Inr s2"
      and r: "(case getNextToken s2 of (op, s3) \<Rightarrow>
                andThen (if type op = TOKEN_PLUS \<or> type op = TOKEN_MINUS
                         then compileOperand op s3 else Inr (ungetToken op s3))
                        (emitStore T)) = Inr s'"
      by (auto simp: compileExpression_def andThen_Inr_iff)
    obtain op s3 where o: "getNextToken s2 = (op, s3)" by (cases "getNextToken s2")
    from r o obtain s6 where
      m: "(if type op = TOKEN_PLUS \<or> type op = TOKEN_MINUS
               then compileOperand op s3 else Inr (ungetToken op s3)) = Inr s6"
      and st: "emitStore T s6 = Inr s'"
      by (auto simp: andThen_Inr_iff)
    have a2: "advance s1 s2" using e by (rule advance_emit) (simp_all add: isJZ_def isJMP_def)
    have a4: "advance s3 s6" using m advance_compileOperand[of op s3 s6] advance_ungetToken[of s3 op]
      by (auto split: if_splits)
    show ?thesis
      by (rule advance_trans[OF a1], rule advance_trans[OF a2],
          rule advance_trans[OF advance_getNextToken[OF o]], rule advance_trans[OF a4],
          rule advance_emitStore[OF st])
  next
    case False
    with assms t have id: "type token = TOKEN_IDENTIFIER"
      by (auto simp: compileExpression_def split: if_splits)
    obtain op s2 where o: "getNextToken s1 = (op, s2)" by (cases "getNextToken s1")
    from assms t id o False have "advance s2 s'"
      by (auto simp: compileExpression_def elim!: andThen_InrE split: if_splits)
         (meson advance_trans advance_emitLoad advance_compileOperand advance_emitStore
            advance_ungetToken)+
    with advance_trans[OF a1 advance_getNextToken[OF o]] show ?thesis by (rule advance_trans)
  qed
qed

lemma advance_compileDeclaration:
  assumes "compileDeclaration s = Inr s'"
  shows "advance s s'"
proof -
  obtain token s1 where t: "getNextToken s = (token, s1)" by (cases "getNextToken s")
  from assms t obtain a1 s2 where g: "getVarAddress (text' token) s1 = Inr (a1, s2)"
    and r: "(case getNextToken s2 of (token, s3) \<Rightarrow>
              if type token \<noteq> TOKEN_SEMICOLON
              then Inl (Fatal ExpectedSemicolonAfterDeclaration) else Inr s3) = Inr s'"
    by (auto simp: compileDeclaration_def andThen_Inr_iff split: if_splits)
  obtain t2 s3 where t2: "getNextToken s2 = (t2, s3)" by (cases "getNextToken s2")
  with r have "s' = s3" by (auto split: if_splits)
  with advance_getNextToken[OF t] advance_getNextToken[OF t2] advance_getVarAddress[OF g]
  show ?thesis by (blast intro: advance_trans)
qed

lemma advance_compileAssignment:
  assumes "compileAssignment v s = Inr s'"
  shows "advance s s'"
proof -
  obtain token s1 where t: "getNextToken s = (token, s1)" by (cases "getNextToken s")
  from assms t obtain s2 where g: "compileExpression v s1 = Inr s2"
    and r: "(case getNextToken s2 of (token, s3) \<Rightarrow>
              if type token \<noteq> TOKEN_SEMICOLON
              then Inl (Fatal ExpectedSemicolonAfterAssignment) else Inr s3) = Inr s'"
    by (auto simp: compileAssignment_def andThen_Inr_iff split: if_splits)
  obtain t2 s3 where t2: "getNextToken s2 = (t2, s3)" by (cases "getNextToken s2")
  with r have "s' = s3" by (auto split: if_splits)
  with advance_getNextToken[OF t] advance_getNextToken[OF t2] advance_compileExpression[OF g]
  show ?thesis by (blast intro: advance_trans)
qed


lemma emitLoad_InrE:
  assumes "emitLoad v s = Inr s'"
  obtains a s1 where "getVarAddress v s = Inr (a, s1)"
    "s' = s1\<lparr>assembly := assembly s1 @ [''LDA '' @ showInt a]\<rparr>"
  using assms unfolding emitLoad_def by (auto elim!: andThen_InrE dest!: emit_InrD)

lemma keeps_findVar: "keeps s s' \<Longrightarrow> findVar (vars s) n = Some a \<Longrightarrow> findVar (vars s') n = Some a"
  by (simp add: keeps_def)

lemma compileIfHeader_lines:
  assumes "compileIfHeader s = Inr (labelEnd, s')"
    and "getNextToken s = (t1, s1)" "getNextToken s1 = (lhs, s2)"
    and "getNextToken s2 = (op, s3)" "getNextToken s3 = (rhs, s4)"
  obtains aL cmp where
    "assembly s' = assembly s @
       [''LDA '' @ showInt aL, cmp, ''JZ L'' @ showInt (labelCount s),
        ''JMP L'' @ showInt (labelCount s + 1), ''L'' @ showInt (labelCount s) @ '':'']"
    "labelCount s' = labelCount s + 2" "labelEnd = ''L'' @ showInt (labelCount s + 1)"
    "type lhs = TOKEN_IDENTIFIER"
    "findVar (vars s') (text' lhs) = Some aL"
    "type rhs = TOKEN_NUMBER \<and> cmp = ''SUBI '' @ text' rhs \<or>
     type rhs = TOKEN_IDENTIFIER \<and>
       (\<exists>aR. findVar (vars s') (text' rhs) = Some aR \<and> cmp = ''SUB '' @ showInt aR)"
    "keeps s s'"
proof -
  from assms(1) show ?thesis
  proof (rule compileIfHeader_InrE)
    fix t1' s1' lhs' s2' op' s3' rhs' s4' t5 s5 t6 s6 s8 s10
    assume "getNextToken s = (t1', s1')" "getNextToken s1' = (lhs', s2')"
      "getNextToken s2' = (op', s3')" "getNextToken s3' = (rhs', s4')"
    with assms(2-5) have [simp]: "t1' = t1" "s1' = s1" "lhs' = lhs" "s2' = s2" "op' = op"
      "s3' = s3" "rhs' = rhs" "s4' = s4" by simp_all
    assume g: "getNextToken s = (t1', s1')" "getNextToken s1' = (lhs', s2')"
      "getNextToken s2' = (op', s3')" "getNextToken s3' = (rhs', s4')"
      "getNextToken s4' = (t5, s5)" "getNextToken s5 = (t6, s6)"
    assume ty: "type lhs' = TOKEN_IDENTIFIER"
      "type rhs' = TOKEN_IDENTIFIER \<or> type rhs' = TOKEN_NUMBER"
    assume l: "emitLoad (text' lhs') (s6\<lparr>labelCount := labelCount s6 + 2\<rparr>) = Inr s8"
    assume c: "(if type rhs' = TOKEN_NUMBER then emit (''SUBI '' @ text' rhs') s8
      else andThen (getVarAddress (text' rhs') s8) (\<lambda>(a, s9). emit (''SUB '' @ showInt a) s9))
       = Inr s10"
    assume le: "labelEnd = ''L'' @ showInt (labelCount s6 + 1)"
    assume s': "s' = s10\<lparr>assembly := assembly s10 @
            [''JZ L'' @ showInt (labelCount s6), ''JMP L'' @ showInt (labelCount s6 + 1),
             ''L'' @ showInt (labelCount s6) @ '':'']\<rparr>"
    have fr: "vars s6 = vars s" "labelCount s6 = labelCount s"
      "currentAddress s6 = currentAddress s" "assembly s6 = assembly s"
      using g[THEN getNextToken_frame(1)] g[THEN getNextToken_frame(2)]
        g[THEN getNextToken_frame(3)] g[THEN getNextToken_frame(4)] by simp_all
    let ?s7 = "s6\<lparr>labelCount := labelCount s6 + 2\<rparr>"
    from l obtain aL s7' where gl: "getVarAddress (text' lhs) ?s7 = Inr (aL, s7')"
      and s8: "s8 = s7'\<lparr>assembly := assembly s7' @ [''LDA '' @ showInt aL]\<rparr>"
      by (auto elim: emitLoad_InrE)
    note fl = getVarAddress_frame[OF gl] getVarAddress_Inr[OF gl]
    have k7: "keeps s ?s7" by (rule keeps_same) (simp_all add: fr)
    have k8: "keeps s s8" using keeps_trans[OF k7 fl(7)] unfolding s8 keeps_def symtabOk_def
      by simp
    have f8: "findVar (vars s8) (text' lhs) = Some aL" "assembly s8 = assembly s @ [''LDA '' @ showInt aL]"
      "labelCount s8 = labelCount s + 2"
      using fl fr by (simp_all add: s8)
    obtain cmp where c10: "assembly s10 = assembly s8 @ [cmp]" "labelCount s10 = labelCount s8"
      "keeps s8 s10"
      "type rhs = TOKEN_NUMBER \<and> cmp = ''SUBI '' @ text' rhs \<or>
       type rhs = TOKEN_IDENTIFIER \<and>
         (\<exists>aR. findVar (vars s10) (text' rhs) = Some aR \<and> cmp = ''SUB '' @ showInt aR)"
    proof (cases "type rhs = TOKEN_NUMBER")
      case True
      with c have "s10 = s8\<lparr>assembly := assembly s8 @ [''SUBI '' @ text' rhs]\<rparr>"
        by (auto dest: emit_InrD)
      with True that[of "''SUBI '' @ text' rhs"] show ?thesis
        by (simp add: keeps_def symtabOk_def)
    next
      case False
      with c obtain aR s9 where gr: "getVarAddress (text' rhs) s8 = Inr (aR, s9)"
        and s10: "s10 = s9\<lparr>assembly := assembly s9 @ [''SUB '' @ showInt aR]\<rparr>"
        by (auto elim!: andThen_InrE dest!: emit_InrD)
      note fg = getVarAddress_frame[OF gr] getVarAddress_Inr[OF gr]
      have "keeps s8 s10" using fg(7) unfolding s10 keeps_def symtabOk_def by simp
      with False ty fg that[of "''SUB '' @ showInt aR"] show ?thesis
        by (simp add: s10)
    qed
    have "findVar (vars s') (text' lhs) = Some aL"
      using keeps_findVar[OF c10(3) f8(1)] by (simp add: s')
    moreover have "keeps s s'" using keeps_trans[OF k8 c10(3)] unfolding s' keeps_def symtabOk_def
      by simp
    moreover have "assembly s' = assembly s @
       [''LDA '' @ showInt aL, cmp, ''JZ L'' @ showInt (labelCount s),
        ''JMP L'' @ showInt (labelCount s + 1), ''L'' @ showInt (labelCount s) @ '':'']"
      by (simp add: s' c10 f8 fr)
    moreover have "labelCount s' = labelCount s + 2" by (simp add: s' c10 f8)
    moreover have "type rhs = TOKEN_NUMBER \<and> cmp = ''SUBI '' @ text' rhs \<or>
     type rhs = TOKEN_IDENTIFIER \<and>
       (\<exists>aR. findVar (vars s') (text' rhs) = Some aR \<and> cmp = ''SUB '' @ showInt aR)"
      using c10(4) by (simp add: s')
    ultimately show ?thesis using that[of aL cmp] le ty fr by simp
  qed
qed

lemma advance_statement_block:
  "(\<forall>s'. compileStatement s = Inr s' \<longrightarrow> advance s s')"
  "(\<forall>s'. compileIfBlock s = Inr s' \<longrightarrow> advance s s')"
proof (induction s and s rule: compileStatement_compileIfBlock.induct)
  case (1 s)
  obtain token s1 where t: "getNextToken s = (token, s1)" by (cases "getNextToken s")
  note a1 = advance_getNextToken[OF t]
  show ?case
  proof (intro allI impI)
    fix s' assume r: "compileStatement s = Inr s'"
    note r' = r[unfolded compileStatement.simps[of s] t, simplified]
    consider (c_eof) "type token = TOKEN_EOF" | (c_int) "type token = TOKEN_INT"
      | (c_ident) "type token = TOKEN_IDENTIFIER" | (c_if) "type token = TOKEN_IF"
      | (c_semi) "type token = TOKEN_SEMICOLON" | (c_rbrace) "type token = TOKEN_RBRACE"
      | (c_other) "type token \<notin> {TOKEN_EOF, TOKEN_INT, TOKEN_IDENTIFIER, TOKEN_IF, TOKEN_SEMICOLON, TOKEN_RBRACE}"
      by auto
    then have "advance s1 s'"
    proof cases
      case c_eof with r' show ?thesis by simp
    next
      case c_int with r' advance_compileDeclaration[of s1 s'] show ?thesis by simp
    next
      case c_ident with r' advance_compileAssignment[of "text' token" s1 s'] show ?thesis by simp
    next
      case c_semi with r' show ?thesis by simp
    next
      case c_rbrace with r' advance_ungetToken[of s1 token] show ?thesis by simp
    next
      case c_other with r' show ?thesis by simp
    next
      case c_if
      with r' obtain labelEnd s2 s3 where h: "compileIfHeader s1 = Inr (labelEnd, s2)"
        and b: "compileIfBlock s2 = Inr s3" and e: "emit (labelEnd @ '':'') s3 = Inr s'"
        by (auto simp: andThen_Inr_iff)
      have "advance s2 s3"
        using 1[OF t[symmetric] _ _ _ _ h refl] c_if b by simp
      then obtain body m where a3: "assembly s3 = assembly s2 @ body"
        "labelCount s3 = labelCount s2 + 2 * int m" "labelRun (labelCount s2) m body"
        and k3: "keeps s2 s3"
        by (auto simp: advance_def)
      have s': "s' = s3\<lparr>assembly := assembly s3 @ [labelEnd @ '':'']\<rparr>" using e by (rule emit_InrD)
      obtain k1 u1 where g1: "getNextToken s1 = (k1, u1)" by (cases "getNextToken s1")
      obtain lhs u2 where g2: "getNextToken u1 = (lhs, u2)" by (cases "getNextToken u1")
      obtain eq u3 where g3: "getNextToken u2 = (eq, u3)" by (cases "getNextToken u2")
      obtain rhs u4 where g4: "getNextToken u3 = (rhs, u4)" by (cases "getNextToken u3")
      from h g1 g2 g3 g4 show ?thesis
      proof (rule compileIfHeader_lines)
        fix aL cmp
        assume a: "assembly s2 = assembly s1 @
           [''LDA '' @ showInt aL, cmp, ''JZ L'' @ showInt (labelCount s1),
            ''JMP L'' @ showInt (labelCount s1 + 1), ''L'' @ showInt (labelCount s1) @ '':'']"
          and l: "labelCount s2 = labelCount s1 + 2" "labelEnd = ''L'' @ showInt (labelCount s1 + 1)"
          and k: "keeps s1 s2"
          and c: "type rhs = TOKEN_NUMBER \<and> cmp = ''SUBI '' @ text' rhs \<or>
             type rhs = TOKEN_IDENTIFIER \<and>
             (\<exists>aR. findVar (vars s2) (text' rhs) = Some aR \<and> cmp = ''SUB '' @ showInt aR)"
        from c have nc: "\<not> isJZ cmp" "\<not> isJMP cmp" "\<not> isLabel cmp"
          by (auto simp: isJZ_def isJMP_def)
        have nl: "\<not> isJZ (''LDA '' @ showInt aL)" "\<not> isJMP (''LDA '' @ showInt aL)"
          "\<not> isLabel (''LDA '' @ showInt aL)"
          by (simp_all add: isJZ_def isJMP_def)
        have r: "labelRun (labelCount s1) (Suc m)
           ([''LDA '' @ showInt aL, cmp, ''JZ L'' @ showInt (labelCount s1),
             ''JMP L'' @ showInt (labelCount s1 + 1), ''L'' @ showInt (labelCount s1) @ '':''] @
            body @ [''L'' @ showInt (labelCount s1 + 1) @ '':''])"
          using a3(3) unfolding l(1) by (rule labelRun_if) (fact nl nc)+
        have "keeps s1 s'" using keeps_trans[OF k k3] by (simp add: s' keeps_def symtabOk_def)
        moreover have "assembly s' = assembly s1 @
           ([''LDA '' @ showInt aL, cmp, ''JZ L'' @ showInt (labelCount s1),
             ''JMP L'' @ showInt (labelCount s1 + 1), ''L'' @ showInt (labelCount s1) @ '':''] @
            body @ [''L'' @ showInt (labelCount s1 + 1) @ '':''])"
          by (simp add: s' a3 a l)
        moreover have "labelCount s' = labelCount s1 + 2 * int (Suc m)"
          by (simp add: s' a3 l)
        ultimately show ?thesis using r unfolding advance_def by blast
      qed
    qed
    with a1 show "advance s s'" by (rule advance_trans)
  qed
next
  case (2 s)
  obtain token s1 where t: "getNextToken s = (token, s1)" by (cases "getNextToken s")
  note a1 = advance_getNextToken[OF t]
  show ?case
  proof (intro allI impI)
    fix s' assume r: "compileIfBlock s = Inr s'"
    note r' = r[unfolded compileIfBlock.simps[of s] t, simplified]
    show "advance s s'"
    proof (cases "type token = TOKEN_RBRACE")
      case True with r' a1 show ?thesis by simp
    next
      case False
      with r' have ne: "type token \<noteq> TOKEN_EOF" by (auto split: if_splits)
      with r' False obtain s2 where c: "compileStatement (ungetToken token s1) = Inr s2"
        and b: "compileIfBlock s2 = Inr s'" by (auto simp: andThen_Inr_iff)
      have "advance (ungetToken token s1) s2" using 2(1)[OF t[symmetric] False ne] c by simp
      moreover have "advance s2 s'" using 2(2)[OF t[symmetric] False ne c] b by simp
      ultimately show ?thesis
        using a1 advance_ungetToken[of s1 token] by (blast intro: advance_trans)
    qed
  qed
qed

lemma advance_compileStatement: "compileStatement s = Inr s' \<Longrightarrow> advance s s'"
  using advance_statement_block(1) by blast

lemma advance_compileIfBlock: "compileIfBlock s = Inr s' \<Longrightarrow> advance s s'"
  using advance_statement_block(2) by blast

lemma advance_compile:
  assumes a: "compile s0 = Some r0"
  shows "\<forall>s'. r0 = Inr s' \<longrightarrow> advance s0 s'"
proof (rule compile.raw_induct[where P = "\<lambda>s r. \<forall>s'. r = Inr s' \<longrightarrow> advance s s'", OF _ a], goal_cases)
  case (1 compile' s r)
  obtain token s1 where t: "getNextToken s = (token, s1)" by (cases "getNextToken s")
  note a1 = advance_getNextToken[OF t]
  show ?case
  proof (intro allI impI)
    fix s' assume r: "r = Inr s'"
    show "advance s s'"
    proof (cases "type token = TOKEN_EOF")
      case True with 1(2) t r a1 show ?thesis by simp
    next
      case False
      with 1(2) t r obtain s2 where c: "compileStatement (ungetToken token s1) = Inr s2"
        and k: "compile' s2 = Some (Inr s')"
        by (auto split: sum.splits)
      from 1(1)[OF k] have "advance s2 s'" by simp
      with advance_compileStatement[OF c] a1 advance_ungetToken[of s1 token]
      show ?thesis by (blast intro: advance_trans)
    qed
  qed
qed


section \<open>The lines of an expression\<close>

text \<open>
  Reading a token neither looks at the output, the symbol table and the address counter
  nor changes them; resolving a name depends on the table and the counter alone.
\<close>

lemma getNextToken_asm:
  "getNextToken (s\<lparr>assembly := a\<rparr>) = (fst (getNextToken s), (snd (getNextToken s))\<lparr>assembly := a\<rparr>)"
  by (simp add: getNextToken_def split: list.split prod.split)

lemma getNextToken_vars:
  "getNextToken (s\<lparr>vars := a\<rparr>) = (fst (getNextToken s), (snd (getNextToken s))\<lparr>vars := a\<rparr>)"
  by (simp add: getNextToken_def split: list.split prod.split)

lemma getNextToken_cur:
  "getNextToken (s\<lparr>currentAddress := a\<rparr>) = (fst (getNextToken s), (snd (getNextToken s))\<lparr>currentAddress := a\<rparr>)"
  by (simp add: getNextToken_def split: list.split prod.split)

lemma emit_exact:
  "asmLine s < MAX_CODE_LINES \<Longrightarrow> length l < ASM_LINE_LEN \<Longrightarrow>
   emit l s = Inr (s\<lparr>assembly := assembly s @ [l]\<rparr>)"
  by (simp add: emit_def)

lemma getVarAddress_upd:
  assumes "getVarAddress n u = Inr (a, u')"
    and "vars x = vars u" "currentAddress x = currentAddress u"
  shows "getVarAddress n x = Inr (a, x\<lparr>vars := vars u', currentAddress := currentAddress u'\<rparr>)"
proof (cases "findVar (vars u) n")
  case None
  with assms show ?thesis
    by (simp add: getVarAddress_def varCount_def split: if_splits) auto
next
  case (Some b)
  with assms(1) have "a = b" "u' = u" by (simp_all add: getVarAddress_def)
  with Some assms(2,3) show ?thesis
    by (simp add: getVarAddress_def)
qed

lemma emitLoad_exact:
  assumes "getVarAddress v u = Inr (a, u')"
    and "vars x = vars u" "currentAddress x = currentAddress u"
    and "asmLine x < MAX_CODE_LINES" "length (''LDA '' @ showInt a) < ASM_LINE_LEN"
  shows "emitLoad v x = Inr (x\<lparr>vars := vars u', currentAddress := currentAddress u',
            assembly := assembly x @ [''LDA '' @ showInt a]\<rparr>)"
  using assms(4,5) unfolding emitLoad_def getVarAddress_upd[OF assms(1-3)]
  by (simp add: andThen_def emit_def asmLine_def)

lemma emitStore_exact:
  assumes "getVarAddress v u = Inr (a, u')"
    and "vars x = vars u" "currentAddress x = currentAddress u"
    and "asmLine x < MAX_CODE_LINES" "length (''STA '' @ showInt a) < ASM_LINE_LEN"
  shows "emitStore v x = Inr (x\<lparr>vars := vars u', currentAddress := currentAddress u',
            assembly := assembly x @ [''STA '' @ showInt a]\<rparr>)"
  using assms(4,5) unfolding emitStore_def getVarAddress_upd[OF assms(1-3)]
  by (simp add: andThen_def emit_def asmLine_def)

lemma compileOperand_number:
  assumes "getNextToken x = (t2, x1)" "type t2 = TOKEN_NUMBER"
    and "asmLine x < MAX_CODE_LINES" "length (opName op @ ''I '' @ text' t2) < ASM_LINE_LEN"
  shows "compileOperand op x = Inr (x1\<lparr>assembly := assembly x @ [opName op @ ''I '' @ text' t2]\<rparr>)"
  using assms getNextToken_frame(4)[OF assms(1)]
  by (simp add: compileOperand_def emit_def asmLine_def)

lemma compileOperand_identifier:
  assumes "getNextToken x = (t2, x1)" "type t2 = TOKEN_IDENTIFIER"
    and "getVarAddress (text' t2) u = Inr (a, u')"
    and "vars x = vars u" "currentAddress x = currentAddress u"
    and "asmLine x < MAX_CODE_LINES" "length (opName op @ '' '' @ showInt a) < ASM_LINE_LEN"
  shows "compileOperand op x =
     Inr (x1\<lparr>vars := vars u', currentAddress := currentAddress u',
              assembly := assembly x @ [opName op @ '' '' @ showInt a]\<rparr>)"
proof -
  note f = getNextToken_frame[OF assms(1)]
  have "getVarAddress (text' t2) x1 =
      Inr (a, x1\<lparr>vars := vars u', currentAddress := currentAddress u'\<rparr>)"
    using assms(3) by (rule getVarAddress_upd) (simp_all add: f assms(4,5))
  then show ?thesis
    using assms(1,2,6,7) f(4) by (simp add: compileOperand_def emit_def asmLine_def)
qed




section \<open>The lines of an if construct\<close>

lemma advance_keeps: "advance s s' \<Longrightarrow> keeps s s'"
  by (simp add: advance_def)

lemma advance_assembly: "advance s s' \<Longrightarrow> \<exists>ls. assembly s' = assembly s @ ls"
  by (auto simp: advance_def)

lemma compileIfBlock_statements:
  "blockStatements s xs sb \<Longrightarrow>
     compileIfBlock s = Inr sb \<and> assembly sb = assembly (last (s # xs))"
proof (induction xs arbitrary: s)
  case Nil
  obtain t s1 where g: "getNextToken s = (t, s1)" by (cases "getNextToken s")
  with Nil getNextToken_frame(4)[OF g] show ?case
    by (simp add: compileIfBlock.simps[of s])
next
  case (Cons x xs)
  obtain t s1 where g: "getNextToken s = (t, s1)" by (cases "getNextToken s")
  from Cons.prems g have c: "type t \<noteq> TOKEN_RBRACE" "type t \<noteq> TOKEN_EOF"
    "compileStatement (ungetToken t s1) = Inr x" "blockStatements x xs sb"
    by simp_all
  from Cons.IH[OF c(4)] c(1-3) g show ?case
    by (simp add: compileIfBlock.simps[of s])
qed

lemma compileIfHeader_exact:
  assumes t: "getNextToken s0 = (lp, s1)" "type lp = TOKEN_LPAREN"
      "getNextToken s1 = (lhs, s2)" "type lhs = TOKEN_IDENTIFIER"
      "getNextToken s2 = (eq, s3)" "type eq = TOKEN_EQUAL"
      "getNextToken s3 = (rhs, s4)"
      "getNextToken s4 = (rp, s5)" "type rp = TOKEN_RPAREN"
      "getNextToken s5 = (lb, s6)" "type lb = TOKEN_LBRACE"
    and l: "getVarAddress (text' lhs) u0 = Inr (aL, u1)"
      "vars u0 = vars s0" "currentAddress u0 = currentAddress s0"
    and r: "type rhs = TOKEN_NUMBER \<and> cmp = ''SUBI '' @ text' rhs \<and> u2 = u1 \<or>
            type rhs = TOKEN_IDENTIFIER \<and> getVarAddress (text' rhs) u1 = Inr (aR, u2) \<and>
              cmp = ''SUB '' @ showInt aR"
    and room: "asmLine s0 + 5 \<le> MAX_CODE_LINES"
    and fit: "list_all (\<lambda>l. length l < ASM_LINE_LEN)
       [''LDA '' @ showInt aL, cmp, ''JZ L'' @ showInt (labelCount s0),
        ''JMP L'' @ showInt (labelCount s0 + 1), ''L'' @ showInt (labelCount s0) @ '':'']"
  shows "compileIfHeader s0 =
     Inr (''L'' @ showInt (labelCount s0 + 1),
          s6\<lparr>labelCount := labelCount s0 + 2, vars := vars u2, currentAddress := currentAddress u2,
             assembly := assembly s0 @
               [''LDA '' @ showInt aL, cmp, ''JZ L'' @ showInt (labelCount s0),
                ''JMP L'' @ showInt (labelCount s0 + 1), ''L'' @ showInt (labelCount s0) @ '':'']\<rparr>)"
proof -
  note f = getNextToken_frame[OF t(1)] getNextToken_frame[OF t(3)] getNextToken_frame[OF t(5)]
    getNextToken_frame[OF t(7)] getNextToken_frame[OF t(8)] getNextToken_frame[OF t(10)]
  let ?n = "labelCount s0"
  let ?s7 = "s6\<lparr>labelCount := ?n + 2\<rparr>"
  let ?s8 = "?s7\<lparr>vars := vars u1, currentAddress := currentAddress u1,
            assembly := assembly s0 @ [''LDA '' @ showInt aL]\<rparr>"
  let ?s10 = "?s7\<lparr>vars := vars u2, currentAddress := currentAddress u2,
            assembly := assembly s0 @ [''LDA '' @ showInt aL, cmp]\<rparr>"
  have ty: "\<not> (type rhs \<noteq> TOKEN_IDENTIFIER \<and> type rhs \<noteq> TOKEN_NUMBER)" using r by blast
  have e8: "emitLoad (text' lhs) ?s7 = Inr ?s8"
  proof -
    have "emitLoad (text' lhs) ?s7 = Inr (?s7\<lparr>vars := vars u1, currentAddress := currentAddress u1,
            assembly := assembly ?s7 @ [''LDA '' @ showInt aL]\<rparr>)"
      using l(1) by (rule emitLoad_exact) (use l room fit f in \<open>simp_all add: asmLine_def\<close>)
    then show ?thesis by (simp add: f)
  qed
  have e10: "(if type rhs = TOKEN_NUMBER then emit (''SUBI '' @ text' rhs) ?s8
              else andThen (getVarAddress (text' rhs) ?s8)
                      (\<lambda>(a, s9). emit (''SUB '' @ showInt a) s9)) = Inr ?s10"
  proof (cases "type rhs = TOKEN_NUMBER")
    case True
    with r have "cmp = ''SUBI '' @ text' rhs" "u2 = u1" by auto
    with True room fit show ?thesis by (simp add: emit_def asmLine_def)
  next
    case False
    with r have g: "getVarAddress (text' rhs) u1 = Inr (aR, u2)" and c: "cmp = ''SUB '' @ showInt aR"
      by auto
    have "getVarAddress (text' rhs) ?s8 =
        Inr (aR, ?s8\<lparr>vars := vars u2, currentAddress := currentAddress u2\<rparr>)"
      using g by (rule getVarAddress_upd) simp_all
    with False room fit show ?thesis by (simp add: emit_def asmLine_def c)
  qed
  have "compileIfHeader s0 =
      andThen (emitLoad (text' lhs) ?s7) (\<lambda>s8.
      andThen (if type rhs = TOKEN_NUMBER then emit (''SUBI '' @ text' rhs) s8
               else andThen (getVarAddress (text' rhs) s8)
                      (\<lambda>(a, s9). emit (''SUB '' @ showInt a) s9)) (\<lambda>s10.
      andThen (emit (''JZ '' @ ''L'' @ showInt ?n) s10) (\<lambda>s11.
      andThen (emit (''JMP '' @ ''L'' @ showInt (?n + 1)) s11) (\<lambda>s12.
      andThen (emit ((''L'' @ showInt ?n) @ '':'') s12) (\<lambda>s13.
      Inr (''L'' @ showInt (?n + 1), s13))))))"
    using t f by (cases "type rhs = TOKEN_NUMBER") (use ty in \<open>simp_all add: compileIfHeader_def Let_def\<close>)
  also have "\<dots> = Inr (''L'' @ showInt (?n + 1),
      ?s7\<lparr>vars := vars u2, currentAddress := currentAddress u2,
            assembly := assembly s0 @
               [''LDA '' @ showInt aL, cmp, ''JZ L'' @ showInt ?n,
                ''JMP L'' @ showInt (?n + 1), ''L'' @ showInt ?n @ '':'']\<rparr>)"
    unfolding e8 andThen_simps e10
    using room fit by (simp add: emit_def asmLine_def)
  finally show ?thesis by simp
qed




section \<open>Labels\<close>

text \<open>A line that defines a label: \<^verbatim>\<open>L\<close>, a number as \<^verbatim>\<open>%d\<close> prints it, and a colon.\<close>

lemma isLabel_lines:
  "\<not> isLabel (''LDI '' @ x)" "\<not> isLabel (''LDA '' @ x)" "\<not> isLabel (''STA '' @ x)"
  "\<not> isLabel (''ADD'' @ x)" "\<not> isLabel (''SUB'' @ x)" "\<not> isLabel (''JZ '' @ x)"
  "\<not> isLabel (''JMP '' @ x)" "isLabel (''L'' @ showInt k @ '':'')"
  by simp_all

text \<open>Different numbers are printed differently, so different label numbers give different labels.\<close>

lemma labels_distinct: "distinct (map (\<lambda>i. ''L'' @ showInt (n + int i) @ '':'') [0..<k])"
  by (auto simp: distinct_map inj_on_def dest: showInt_inj)

text \<open>
  Claim C5. In a compilation that runs to completion the label counter grows by two for
  each \<^verbatim>\<open>if\<close>: with \<open>n\<close> the counter at the start and \<open>m\<close> the number of constructs, the
  \<^verbatim>\<open>JZ\<close> lines of the output are, in order, those to \<open>Ln\<close>, \<open>L(n+2)\<close>, ... and the \<^verbatim>\<open>JMP\<close>
  lines those to \<open>L(n+1)\<close>, \<open>L(n+3)\<close>, ...: the \<open>k\<close>-th construct uses the two consecutive
  numbers \<open>n + 2k\<close> and \<open>n + 2k + 1\<close>, and the numbers increase from one construct to the
  next. The label lines of the output are \<open>Ln:\<close>, \<open>L(n+1):\<close>, ..., \<open>L(n+2m-1):\<close>, each exactly
  once (in the order in which the constructs open and close), so no label is defined twice.
  The counter starts at 0.
\<close>

theorem labels_consecutive:
  assumes "compile s = Some (Inr s')"
  shows "\<exists>m. labelCount s' = labelCount s + 2 * int m \<and>
     filter isJZ (drop (asmLine s) (assembly s')) =
       map (\<lambda>k. ''JZ L'' @ showInt (labelCount s + 2 * int k)) [0..<m] \<and>
     filter isJMP (drop (asmLine s) (assembly s')) =
       map (\<lambda>k. ''JMP L'' @ showInt (labelCount s + 2 * int k + 1)) [0..<m] \<and>
     mset (filter isLabel (drop (asmLine s) (assembly s'))) =
       mset (map (\<lambda>i. ''L'' @ showInt (labelCount s + int i) @ '':'') [0..<2 * m]) \<and>
     distinct (filter isLabel (drop (asmLine s) (assembly s'))) \<and>
     labelCount (initState src) = 0"
proof -
  from advance_compile[OF assms] have "advance s s'" by simp
  then obtain ls m where a: "assembly s' = assembly s @ ls" "labelCount s' = labelCount s + 2 * int m"
    and r: "labelRun (labelCount s) m ls"
    by (auto simp: advance_def)
  from r have l: "mset (filter isLabel ls) =
      mset (map (\<lambda>i. ''L'' @ showInt (labelCount s + int i) @ '':'') [0..<2 * m])"
    by (simp add: labelRun_def)
  have d: "distinct (filter isLabel ls)"
    using mset_eq_imp_distinct_iff[OF l] labels_distinct[of "labelCount s" "2 * m"] by simp
  from a r l d show ?thesis
    by (intro exI[of _ m]) (simp add: labelRun_def asmLine_def initState_def)
qed

text \<open>Three constructs, one nested in another, take the labels \<open>L0\<close> to \<open>L5\<close>.\<close>

theorem labels_consecutive_witness:
  "\<exists>s'. compile (initState ''if (a == 1) { if (b == a) { } b = 2; } if (b == 3) { }'') = Some (Inr s') \<and>
     labelCount s' = 6 \<and>
     filter isJZ (assembly s') = [''JZ L0'', ''JZ L2'', ''JZ L4''] \<and>
     filter isJMP (assembly s') = [''JMP L1'', ''JMP L3'', ''JMP L5''] \<and>
     mset (filter isLabel (assembly s')) = mset [''L0:'', ''L1:'', ''L2:'', ''L3:'', ''L4:'', ''L5:''] \<and>
     distinct (filter isLabel (assembly s')) \<and>
     filter isLabel (assembly s') = [''L0:'', ''L2:'', ''L3:'', ''L1:'', ''L4:'', ''L5:'']"
proof -
  let ?s = "initState ''if (a == 1) { if (b == a) { } b = 2; } if (b == 3) { }''"
  have "map_option (map_sum id (\<lambda>s. (labelCount s, filter isLabel (assembly s)))) (compile ?s) =
      Some (Inr (6, [''L0:'', ''L2:'', ''L3:'', ''L1:'', ''L4:'', ''L5:'']))"
    by code_simp
  then obtain s' where c: "compile ?s = Some (Inr s')" and l: "labelCount s' = 6"
    and f: "filter isLabel (assembly s') = [''L0:'', ''L2:'', ''L3:'', ''L1:'', ''L4:'', ''L5:'']"
    by (cases "compile ?s"; cases "the (compile ?s)") auto
  have i: "labelCount ?s = 0" "asmLine ?s = 0" by (simp_all add: initState_def asmLine_def)
  from labels_consecutive[OF c, of "[]"] obtain m where
    m: "labelCount s' = labelCount ?s + 2 * int m"
    and j: "filter isJZ (drop (asmLine ?s) (assembly s')) =
       map (\<lambda>k. ''JZ L'' @ showInt (labelCount ?s + 2 * int k)) [0..<m]"
     "filter isJMP (drop (asmLine ?s) (assembly s')) =
       map (\<lambda>k. ''JMP L'' @ showInt (labelCount ?s + 2 * int k + 1)) [0..<m]"
     "mset (filter isLabel (drop (asmLine ?s) (assembly s'))) =
       mset (map (\<lambda>i. ''L'' @ showInt (labelCount ?s + int i) @ '':'') [0..<2 * m])"
     "distinct (filter isLabel (drop (asmLine ?s) (assembly s')))"
    by blast
  from m l i have m3: "m = 3" by simp
  have u: "[0..<3] = [0, 1, 2]" "[0..<2 * 3] = [0, 1, 2, 3, 4, 5]" by (simp_all add: upt_rec)
  have sh: "showInt 0 = ''0''" "showInt 1 = ''1''" "showInt 2 = ''2''" "showInt 3 = ''3''"
    "showInt 4 = ''4''" "showInt 5 = ''5''"
    by code_simp+
  from j have "filter isJZ (assembly s') = [''JZ L0'', ''JZ L2'', ''JZ L4'']"
    "filter isJMP (assembly s') = [''JMP L1'', ''JMP L3'', ''JMP L5'']"
    "mset (filter isLabel (assembly s')) = mset [''L0:'', ''L1:'', ''L2:'', ''L3:'', ''L4:'', ''L5:'']"
    "distinct (filter isLabel (assembly s'))"
    unfolding m3 i u by (simp_all add: sh)
  with c l f show ?thesis by blast
qed

section \<open>Addresses\<close>

lemma findVar_mem: "findVar vs n = Some a \<Longrightarrow> \<exists>v\<in>set vs. name v = n \<and> address v = a"
  by (induction vs) (auto split: if_splits)

lemma findVar_inj:
  assumes "distinct (map address vs)" "findVar vs n = Some a" "findVar vs m = Some a"
  shows "n = m"
proof -
  from findVar_mem[OF assms(2)] obtain v where v: "v \<in> set vs" "name v = n" "address v = a"
    by blast
  from findVar_mem[OF assms(3)] obtain w where w: "w \<in> set vs" "name w = m" "address w = a"
    by blast
  from assms(1) have "inj_on address (set vs)" by (simp add: distinct_map)
  with v w have "v = w" by (auto dest: inj_onD)
  with v w show ?thesis by simp
qed

lemma symtabOk_initState: "symtabOk (initState src)"
  by (simp add: symtabOk_def initState_def)

lemma getVarAddress_found: "findVar (vars s) n = Some a \<Longrightarrow> getVarAddress n s = Inr (a, s)"
  by (simp add: getVarAddress_def)

lemma keeps_compile: "compile s = Some (Inr s') \<Longrightarrow> keeps s s'"
  using advance_compile[of s "Inr s'"] by (simp add: advance_keeps)

text \<open>
  Claim C4. Resolving a name that the table holds returns the address bound to it and
  changes nothing; resolving a name it does not hold, while there is room, binds the name
  to the next free address, returns that address and increments the counter, which
  starts at 16. A binding, once made, stays in force through every later resolution,
  statement and run of the driver loop, so that the name resolves to the same address
  from then on. Two different names resolved one after the other get different
  addresses, and no two names of the table of a completed compilation share an address.
  Compiling \<^verbatim>\<open>x = 1; y = x + 2;\<close> binds \<^verbatim>\<open>x\<close> to 16 and \<^verbatim>\<open>y\<close> to 17 and emits
  \<^verbatim>\<open>LDI 1\<close>, \<^verbatim>\<open>STA 16\<close>, \<^verbatim>\<open>LDA 16\<close>, \<^verbatim>\<open>ADDI 2\<close>, \<^verbatim>\<open>STA 17\<close>.
\<close>

theorem getVarAddress_contract:
  "(findVar (vars s) n = Some a \<longrightarrow> getVarAddress n s = Inr (a, s)) \<and>
   (findVar (vars s) n = None \<and> varCount s < MAX_VARS \<longrightarrow>
      getVarAddress n s =
        Inr (currentAddress s,
             s\<lparr>vars := vars s @ [\<lparr> name = n, address = currentAddress s \<rparr>],
               currentAddress := currentAddress s + 1\<rparr>)) \<and>
   (getVarAddress n s = Inr (a, s1) \<longrightarrow> findVar (vars s1) n = Some a) \<and>
   (findVar (vars s1) n = Some a \<and>
    (getVarAddress m s1 = Inr (b, s2) \<or> compileStatement s1 = Inr s2 \<or>
     compile s1 = Some (Inr s2)) \<longrightarrow>
      findVar (vars s2) n = Some a \<and> getVarAddress n s2 = Inr (a, s2)) \<and>
   (symtabOk s \<and> getVarAddress n s = Inr (a, s1) \<and> getVarAddress m s1 = Inr (b, s2) \<and>
    n \<noteq> m \<longrightarrow> a \<noteq> b) \<and>
   (compile (initState src) = Some (Inr s3) \<and> findVar (vars s3) n = Some a \<and>
    findVar (vars s3) m = Some a \<longrightarrow> n = m) \<and>
   currentAddress (initState src) = 16 \<and>
   map_option (map_sum id (\<lambda>s. (map (\<lambda>v. (name v, address v)) (vars s), assembly s)))
     (compile (initState ''x = 1; y = x + 2;'')) =
   Some (Inr ([(''x'', 16), (''y'', 17)],
              [''LDI 1'', ''STA 16'', ''LDA 16'', ''ADDI 2'', ''STA 17'']))"
proof (intro conjI impI; (elim conjE)?)
  show "getVarAddress n s = Inr (a, s)" if "findVar (vars s) n = Some a"
    using that by (rule getVarAddress_found)
  show "getVarAddress n s =
        Inr (currentAddress s,
             s\<lparr>vars := vars s @ [\<lparr> name = n, address = currentAddress s \<rparr>],
               currentAddress := currentAddress s + 1\<rparr>)"
    if "findVar (vars s) n = None" "varCount s < MAX_VARS"
    using that by (simp add: getVarAddress_def)
  show "findVar (vars s1) n = Some a" if "getVarAddress n s = Inr (a, s1)"
    using that by (rule getVarAddress_Inr(1))
  show "findVar (vars s2) n = Some a" "getVarAddress n s2 = Inr (a, s2)"
    if f: "findVar (vars s1) n = Some a"
      and st: "getVarAddress m s1 = Inr (b, s2) \<or> compileStatement s1 = Inr s2 \<or>
               compile s1 = Some (Inr s2)"
  proof -
    from st have "keeps s1 s2"
      using getVarAddress_Inr(2) advance_keeps[OF advance_compileStatement] keeps_compile
      by blast
    then show "findVar (vars s2) n = Some a" using f by (rule keeps_findVar)
    then show "getVarAddress n s2 = Inr (a, s2)" by (rule getVarAddress_found)
  qed
  show "a \<noteq> b"
    if ok: "symtabOk s" and g1: "getVarAddress n s = Inr (a, s1)"
      and g2: "getVarAddress m s1 = Inr (b, s2)" and ne: "n \<noteq> m"
  proof
    assume "a = b"
    have "symtabOk s2"
      using keeps_trans[OF getVarAddress_Inr(2)[OF g1] getVarAddress_Inr(2)[OF g2]] ok
      by (simp add: keeps_def)
    then have d: "distinct (map address (vars s2))" by (simp add: symtabOk_def)
    have "findVar (vars s2) n = Some a"
      using keeps_findVar[OF getVarAddress_Inr(2)[OF g2] getVarAddress_Inr(1)[OF g1]] .
    moreover have "findVar (vars s2) m = Some a"
      using getVarAddress_Inr(1)[OF g2] \<open>a = b\<close> by simp
    ultimately have "n = m" by (rule findVar_inj[OF d])
    with ne show False by simp
  qed
  show "n = m"
    if c: "compile (initState src) = Some (Inr s3)" and f: "findVar (vars s3) n = Some a"
      "findVar (vars s3) m = Some a"
  proof -
    have "symtabOk s3" using keeps_compile[OF c] symtabOk_initState by (simp add: keeps_def)
    then have "distinct (map address (vars s3))" by (simp add: symtabOk_def)
    from findVar_inj[OF this f] show ?thesis .
  qed
  show "currentAddress (initState src) = 16" by (simp add: initState_def)
  show "map_option (map_sum id (\<lambda>s. (map (\<lambda>v. (name v, address v)) (vars s), assembly s)))
     (compile (initState ''x = 1; y = x + 2;'')) =
   Some (Inr ([(''x'', 16), (''y'', 17)],
              [''LDI 1'', ''STA 16'', ''LDA 16'', ''ADDI 2'', ''STA 17'']))"
    by code_simp
qed

text \<open>The names \<^verbatim>\<open>x\<close> and \<^verbatim>\<open>y\<close>, resolved by hand and by compiling the example.\<close>

theorem getVarAddress_contract_witness:
  "\<exists>sx sy s3.
     findVar (vars (initState ''x = 1; y = x + 2;'')) ''x'' = None \<and>
     varCount (initState ''x = 1; y = x + 2;'') < MAX_VARS \<and>
     getVarAddress ''x'' (initState ''x = 1; y = x + 2;'') = Inr (16, sx) \<and>
     findVar (vars sx) ''x'' = Some 16 \<and> getVarAddress ''x'' sx = Inr (16, sx) \<and>
     getVarAddress ''y'' sx = Inr (17, sy) \<and>
     findVar (vars sy) ''x'' = Some 16 \<and> getVarAddress ''x'' sy = Inr (16, sy) \<and>
     symtabOk (initState ''x = 1; y = x + 2;'') \<and> ''x'' \<noteq> ''y'' \<and> (16::int) \<noteq> 17 \<and>
     compile (initState ''x = 1; y = x + 2;'') = Some (Inr s3) \<and>
     findVar (vars s3) ''x'' = Some 16 \<and> findVar (vars s3) ''y'' = Some 17 \<and>
     getVarAddress ''x'' s3 = Inr (16, s3)"
proof -
  let ?s = "initState ''x = 1; y = x + 2;''"
  note c1 = getVarAddress_contract[THEN conjunct1, rule_format]
    and c2 = getVarAddress_contract[THEN conjunct2, THEN conjunct1, rule_format]
    and c3 = getVarAddress_contract[THEN conjunct2, THEN conjunct2, THEN conjunct1, rule_format]
    and c4 = getVarAddress_contract[THEN conjunct2, THEN conjunct2, THEN conjunct2,
               THEN conjunct1, rule_format]
    and c5 = getVarAddress_contract[THEN conjunct2, THEN conjunct2, THEN conjunct2,
               THEN conjunct2, THEN conjunct1, rule_format]
    and c6 = getVarAddress_contract[THEN conjunct2, THEN conjunct2, THEN conjunct2,
               THEN conjunct2, THEN conjunct2, THEN conjunct1, rule_format]
  have h: "findVar (vars ?s) ''x'' = None" "varCount ?s < MAX_VARS" "currentAddress ?s = 16"
    by code_simp+
  define sx where "sx = ?s\<lparr>vars := vars ?s @ [\<lparr> name = ''x'', address = currentAddress ?s \<rparr>],
               currentAddress := currentAddress ?s + 1\<rparr>"
  have gx: "getVarAddress ''x'' ?s = Inr (16, sx)"
    using c2[of ?s "''x''"] h unfolding sx_def by simp
  have fx: "findVar (vars sx) ''x'' = Some 16" using gx by (rule c3)
  have gx': "getVarAddress ''x'' sx = Inr (16, sx)" using fx by (rule c1)
  have hy: "findVar (vars sx) ''y'' = None" "varCount sx < MAX_VARS" "currentAddress sx = 17"
    unfolding sx_def by code_simp+
  define sy where "sy = sx\<lparr>vars := vars sx @ [\<lparr> name = ''y'', address = currentAddress sx \<rparr>],
               currentAddress := currentAddress sx + 1\<rparr>"
  have gy: "getVarAddress ''y'' sx = Inr (17, sy)"
    using c2[of sx "''y''"] hy unfolding sy_def by simp
  have fy: "findVar (vars sy) ''x'' = Some 16" "getVarAddress ''x'' sy = Inr (16, sy)"
    using c4[of sx "''x''" 16 "''y''" 17 sy] fx gy by simp_all
  have ok: "symtabOk ?s" by (rule symtabOk_initState)
  have ne: "''x'' \<noteq> ''y''" by simp
  have "(16::int) \<noteq> 17" using c5[of ?s "''x''" 16 sx "''y''" 17 sy] ok gx gy ne by blast
  have "map_option (map_sum id (\<lambda>s. (findVar (vars s) ''x'', findVar (vars s) ''y''))) (compile ?s)
          = Some (Inr (Some 16, Some 17))"
    by code_simp
  then obtain s3 where c: "compile ?s = Some (Inr s3)"
    and f3: "findVar (vars s3) ''x'' = Some 16" "findVar (vars s3) ''y'' = Some 17"
    by (cases "compile ?s"; cases "the (compile ?s)") auto
  have "''x'' = ''x''" using c6[of "''x = 1; y = x + 2;''" s3 "''x''" 16 "''x''"] c f3(1) by blast
  have g3: "getVarAddress ''x'' s3 = Inr (16, s3)" using f3(1) by (rule c1)
  from h(1,2) gx fx gx' gy fy ok ne \<open>(16::int) \<noteq> 17\<close> c f3 g3 show ?thesis by blast
qed

section \<open>Token text\<close>

lemma scanWhile_eq:
  "length acc \<le> MAX_TOKEN_LEN - 1 \<Longrightarrow>
     scanWhile p acc cs = (take (MAX_TOKEN_LEN - 1) (acc @ takeWhile p cs), dropWhile p cs)"
proof (induction cs arbitrary: acc)
  case Nil
  then show ?case by simp
next
  case (Cons c cs)
  show ?case
  proof (cases "p c")
    case False
    with Cons.prems show ?thesis by simp
  next
    case True
    show ?thesis
    proof (cases "length acc < MAX_TOKEN_LEN - 1")
      case True
      with \<open>p c\<close> Cons.IH[of "acc @ [c]"] show ?thesis by simp
    next
      case False
      with Cons.prems have "length acc = MAX_TOKEN_LEN - 1" by simp
      with \<open>p c\<close> Cons.IH[of acc] show ?thesis by simp
    qed
  qed
qed

lemma isdigit_not_isalpha: "isdigit c \<Longrightarrow> \<not> isalpha c"
  by (auto simp: isdigit_def isalpha_def Let_def)

text \<open>
  Claim C9. Let \<open>c\<close> be the first character after the white space and \<open>cs\<close> the rest of
  the file. If \<open>c\<close> is a letter, the spelling of the identifier is \<open>c\<close> followed by the
  longest run of letters and digits of \<open>cs\<close>; the lexer consumes the whole run, and the
  token carries the first 99 characters of the spelling. If \<open>c\<close> is a digit, the same
  holds with the longest run of digits. A spelling of at most 99 characters is carried
  in full.
\<close>

theorem getNextToken_truncates:
  assumes "\<not> hasToken s" and "skipSpace (input s) = c # cs"
  shows "(isalpha c \<longrightarrow>
            getNextToken s =
              (\<lparr> type = (let w = take 99 (c # takeWhile isalnum cs) in
                          if w = ''int'' then TOKEN_INT else if w = ''if'' then TOKEN_IF
                          else TOKEN_IDENTIFIER),
                 text' = take 99 (c # takeWhile isalnum cs) \<rparr>,
               s\<lparr>input := dropWhile isalnum cs\<rparr>)) \<and>
         (isdigit c \<longrightarrow>
            getNextToken s =
              (\<lparr> type = TOKEN_NUMBER, text' = take 99 (c # takeWhile isdigit cs) \<rparr>,
               s\<lparr>input := dropWhile isdigit cs\<rparr>)) \<and>
         (length (c # takeWhile isalnum cs) \<le> 99 \<longrightarrow>
            take 99 (c # takeWhile isalnum cs) = c # takeWhile isalnum cs) \<and>
         (length (c # takeWhile isdigit cs) \<le> 99 \<longrightarrow>
            take 99 (c # takeWhile isdigit cs) = c # takeWhile isdigit cs)"
  using assms scanWhile_eq[of "[c]" isalnum cs] scanWhile_eq[of "[c]" isdigit cs]
  by (auto simp: getNextToken_def MAX_TOKEN_LEN_def Let_def dest: isdigit_not_isalpha)

text \<open>
  An identifier of 121 characters yields a token of 99 characters with all 121 consumed;
  the number \<^verbatim>\<open>007\<close> is carried as written.
\<close>

theorem getNextToken_truncates_witness:
  "\<not> hasToken (initState (replicate 120 CHR ''a'' @ ''1 = 5;'')) \<and>
   getNextToken (initState (replicate 120 CHR ''a'' @ ''1 = 5;'')) =
     (\<lparr> type = TOKEN_IDENTIFIER, text' = replicate 99 CHR ''a'' \<rparr>,
      (initState (replicate 120 CHR ''a'' @ ''1 = 5;''))\<lparr>input := '' = 5;''\<rparr>) \<and>
   getNextToken (initState ''  007;'') =
     (\<lparr> type = TOKEN_NUMBER, text' = ''007'' \<rparr>, (initState ''  007;'')\<lparr>input := '';''\<rparr>)"
proof -
  let ?s = "initState (replicate 120 CHR ''a'' @ ''1 = 5;'')"
  let ?cs = "replicate 119 CHR ''a'' @ ''1 = 5;''"
  have h: "\<not> hasToken ?s" "skipSpace (input ?s) = CHR ''a'' # ?cs"
    by code_simp+
  have a: "isalpha CHR ''a''"
    by code_simp
  have t: "take 99 (CHR ''a'' # takeWhile isalnum ?cs) = replicate 99 CHR ''a''"
    "dropWhile isalnum ?cs = '' = 5;''"
    "replicate 99 CHR ''a'' \<noteq> ''int''" "replicate 99 CHR ''a'' \<noteq> ''if''"
    by code_simp+
  let ?u = "initState ''  007;''"
  have hu: "\<not> hasToken ?u" "skipSpace (input ?u) = CHR ''0'' # ''07;''"
    by code_simp+
  have d: "isdigit CHR ''0''" "take 99 (CHR ''0'' # takeWhile isdigit ''07;'') = ''007''"
    "dropWhile isdigit ''07;'' = '';''"
    by code_simp+
  from getNextToken_truncates[OF h] a
  have "getNextToken ?s =
          (\<lparr> type = (let w = take 99 (CHR ''a'' # takeWhile isalnum ?cs) in
                      if w = ''int'' then TOKEN_INT else if w = ''if'' then TOKEN_IF
                      else TOKEN_IDENTIFIER),
             text' = take 99 (CHR ''a'' # takeWhile isalnum ?cs) \<rparr>,
           ?s\<lparr>input := dropWhile isalnum ?cs\<rparr>)"
    by blast
  then have 1: "getNextToken ?s =
     (\<lparr> type = TOKEN_IDENTIFIER, text' = replicate 99 CHR ''a'' \<rparr>, ?s\<lparr>input := '' = 5;''\<rparr>)"
    by (simp only: t Let_def if_False)
  from getNextToken_truncates[OF hu] d(1)
  have "getNextToken ?u =
          (\<lparr> type = TOKEN_NUMBER, text' = take 99 (CHR ''0'' # takeWhile isdigit ''07;'') \<rparr>,
           ?u\<lparr>input := dropWhile isdigit ''07;''\<rparr>)"
    by blast
  then have 2: "getNextToken ?u = (\<lparr> type = TOKEN_NUMBER, text' = ''007'' \<rparr>, ?u\<lparr>input := '';''\<rparr>)"
    by (simp only: d)
  from h(1) 1 2 show ?thesis by (intro conjI)
qed

section \<open>Number literals\<close>

text \<open>A run of digits that ends before the token text is full is scanned as it stands.\<close>

lemma isdigit_not_isspace: "isdigit c \<Longrightarrow> \<not> isspace c"
  by (auto simp: isdigit_def isspace_def Let_def)

lemma scanWhile_digits:
  assumes "list_all isdigit ds" "\<not> isdigit c" "length acc + length ds < MAX_TOKEN_LEN"
  shows "scanWhile isdigit acc (ds @ c # rest) = (acc @ ds, c # rest)"
proof -
  have "takeWhile isdigit (ds @ c # rest) = ds" "dropWhile isdigit (ds @ c # rest) = c # rest"
    using assms(1,2) by (simp_all add: list_all_iff)
  with assms(3) show ?thesis
    by (simp add: scanWhile_eq MAX_TOKEN_LEN_def)
qed

text \<open>The characters of the programs below, classified, and the numbers they print.\<close>

lemma ctype_chars:
  "isalpha CHR ''x''" "\<not> isdigit CHR ''x''" "\<not> isspace CHR ''x''"
  "\<not> isalpha CHR '' ''" "\<not> isdigit CHR '' ''" "isspace CHR '' ''"
  "\<not> isalpha CHR ''=''" "\<not> isdigit CHR ''=''" "\<not> isspace CHR ''=''"
  "\<not> isalpha CHR ''1''" "isdigit CHR ''1''" "\<not> isspace CHR ''1''"
  "\<not> isalpha CHR ''+''" "\<not> isdigit CHR ''+''" "\<not> isspace CHR ''+''"
  "\<not> isalpha CHR ''-''" "\<not> isdigit CHR ''-''" "\<not> isspace CHR ''-''"
  "\<not> isalpha CHR '';''" "\<not> isdigit CHR '';''" "\<not> isspace CHR '';''"
  "isalpha CHR ''i''" "\<not> isdigit CHR ''i''" "\<not> isspace CHR ''i''"
  "isalpha CHR ''f''" "\<not> isdigit CHR ''f''" "\<not> isspace CHR ''f''"
  "\<not> isalpha CHR ''(''" "\<not> isdigit CHR ''(''" "\<not> isspace CHR ''(''"
  "\<not> isalpha CHR '')''" "\<not> isdigit CHR '')''" "\<not> isspace CHR '')''"
  "\<not> isalpha CHR ''{''" "\<not> isdigit CHR ''{''" "\<not> isspace CHR ''{''"
  "\<not> isalpha CHR ''}''" "\<not> isdigit CHR ''}''" "\<not> isspace CHR ''}''"
  by code_simp+

lemma showInt_small: "showInt 0 = ''0''" "showInt 1 = ''1''" "showInt 16 = ''16''"
  by code_simp+

lemmas run_defs = getNextToken_def ungetToken_def compileAssignment_def compileExpression_def
  compileOperand_def compileIfHeader_def emitStore_def emitLoad_def emit_def getVarAddress_def
  varCount_def asmLine_def MAX_TOKEN_LEN_def MAX_VARS_def MAX_CODE_LINES_def ASM_LINE_LEN_def
  isalnum_def singleCharType_def charText_def opName_def Let_def

text \<open>
  Four programs around a number \<open>d ds\<close>, run from the source text to the final state.
\<close>

lemma literal_assign:
  assumes "isdigit d" "list_all isdigit ds" "length ds \<le> 94"
  shows "compile (initState (''x = '' @ d # ds @ '';'')) =
     Some (Inr \<lparr> vars = [\<lparr> name = ''x'', address = 16 \<rparr>], labelCount = 0, currentAddress = 17,
           assembly = [''LDI '' @ d # ds, ''STA 16''],
           currentToken = \<lparr> type = TOKEN_SEMICOLON, text' = '';'' \<rparr>, hasToken = False, input = [] \<rparr>)"
proof -
  note d = assms isdigit_not_isalpha[OF assms(1)] isdigit_not_isspace[OF assms(1)]
  show ?thesis
    apply (subst compile.simps)
    apply (insert d)
    apply (simp add: initState_def run_defs ctype_chars compileStatement.simps scanWhile_digits
        showInt_small)
    apply (subst compile.simps)
    apply (simp add: run_defs)
    done
qed

lemma literal_add:
  assumes "isdigit d" "list_all isdigit ds" "length ds \<le> 93"
  shows "compile (initState (''x = 1 + '' @ d # ds @ '';'')) =
     Some (Inr \<lparr> vars = [\<lparr> name = ''x'', address = 16 \<rparr>], labelCount = 0, currentAddress = 17,
           assembly = [''LDI 1'', ''ADDI '' @ d # ds, ''STA 16''],
           currentToken = \<lparr> type = TOKEN_IDENTIFIER, text' = ''x'' \<rparr>, hasToken = False, input = [] \<rparr>)"
proof -
  note d = assms isdigit_not_isalpha[OF assms(1)] isdigit_not_isspace[OF assms(1)]
  show ?thesis
    apply (subst compile.simps)
    apply (insert d)
    apply (simp add: initState_def run_defs ctype_chars compileStatement.simps scanWhile_digits
        showInt_small)
    apply (subst compile.simps)
    apply (simp add: run_defs)
    done
qed

lemma literal_sub:
  assumes "isdigit d" "list_all isdigit ds" "length ds \<le> 93"
  shows "compile (initState (''x = 1 - '' @ d # ds @ '';'')) =
     Some (Inr \<lparr> vars = [\<lparr> name = ''x'', address = 16 \<rparr>], labelCount = 0, currentAddress = 17,
           assembly = [''LDI 1'', ''SUBI '' @ d # ds, ''STA 16''],
           currentToken = \<lparr> type = TOKEN_IDENTIFIER, text' = ''x'' \<rparr>, hasToken = False, input = [] \<rparr>)"
proof -
  note d = assms isdigit_not_isalpha[OF assms(1)] isdigit_not_isspace[OF assms(1)]
  show ?thesis
    apply (subst compile.simps)
    apply (insert d)
    apply (simp add: initState_def run_defs ctype_chars compileStatement.simps scanWhile_digits
        showInt_small)
    apply (subst compile.simps)
    apply (simp add: run_defs)
    done
qed

lemma literal_if:
  assumes "isdigit d" "list_all isdigit ds" "length ds \<le> 93"
  shows "compile (initState (''if (x == '' @ d # ds @ '') { }'')) =
     Some (Inr \<lparr> vars = [\<lparr> name = ''x'', address = 16 \<rparr>], labelCount = 2, currentAddress = 17,
           assembly = [''LDA 16'', ''SUBI '' @ d # ds, ''JZ L0'', ''JMP L1'', ''L0:'', ''L1:''],
           currentToken = \<lparr> type = TOKEN_IF, text' = ''if'' \<rparr>, hasToken = False, input = [] \<rparr>)"
proof -
  note d = assms isdigit_not_isalpha[OF assms(1)] isdigit_not_isspace[OF assms(1)]
  show ?thesis
    apply (subst compile.simps)
    apply (insert d)
    apply (simp add: initState_def run_defs ctype_chars compileStatement.simps scanWhile_digits
        showInt_small compileIfBlock.simps)
    apply (subst compile.simps)
    apply (simp add: run_defs)
    done
qed

lemma getNextToken_digits:
  assumes "n \<noteq> []" "list_all isdigit n" "length n \<le> 99"
    and "\<not> hasToken s" "skipSpace (input s) = n @ rest" "rest = [] \<or> \<not> isdigit (hd rest)"
  shows "getNextToken s = (\<lparr> type = TOKEN_NUMBER, text' = n \<rparr>, s\<lparr>input := rest\<rparr>)"
proof -
  from assms(1) obtain d ds where n: "n = d # ds" by (cases n) auto
  with assms(2,3) have d: "isdigit d" "list_all isdigit ds" "length ds < 99" by simp_all
  have "takeWhile isdigit (ds @ rest) = ds" "dropWhile isdigit (ds @ rest) = rest"
    using d(2) assms(6) by (cases rest; simp add: list_all_iff)+
  with d(3) have "scanWhile isdigit [d] (ds @ rest) = (d # ds, rest)"
    by (simp add: scanWhile_eq MAX_TOKEN_LEN_def)
  with assms(4,5) d(1) isdigit_not_isalpha[OF d(1)] show ?thesis
    by (simp add: getNextToken_def n)
qed




section \<open>A full symbol table\<close>

lemma findVar_None_iff: "findVar vs n = None \<longleftrightarrow> n \<notin> set (map name vs)"
  by (induction vs) auto

text \<open>
  Claim C8. The table has 100 slots. It holds each resolved name once, so its size is
  the number of distinct names resolved so far. While it holds fewer than 100 names, and
  for every name it already holds, a resolution succeeds. Once it holds 100 names, the
  resolution of a further name is the fatal error "Too many variables"; the error is
  raised before the line that needs the address is formatted, so nothing is emitted for
  it, and the driver loop stops with the error of the statement that failed.
\<close>

theorem symbol_table_capacity:
  "MAX_VARS = 100 \<and>
   (distinct (map name (vars s)) \<and> getVarAddress n s = Inr (a, s1) \<longrightarrow>
      distinct (map name (vars s1)) \<and>
      set (map name (vars s1)) = insert n (set (map name (vars s)))) \<and>
   (n \<in> set (map name (vars s)) \<or> varCount s < 100 \<longrightarrow>
      (\<exists>a s1. getVarAddress n s = Inr (a, s1))) \<and>
   (n \<notin> set (map name (vars s)) \<and> varCount s \<ge> 100 \<longrightarrow>
      getVarAddress n s = Inl (Fatal TooManyVariables) \<and>
      emitLoad n s = Inl (Fatal TooManyVariables) \<and>
      emitStore n s = Inl (Fatal TooManyVariables) \<and>
      andThen (getVarAddress n s) (\<lambda>(a, s2). emit (f a) s2) = Inl (Fatal TooManyVariables)) \<and>
   (getNextToken s = (t, s0) \<and> type t \<noteq> TOKEN_EOF \<and>
    compileStatement (ungetToken t s0) = Inl e \<longrightarrow> compile s = Some (Inl e))"
proof (intro conjI impI; (elim conjE)?)
  show "MAX_VARS = 100" by (simp add: MAX_VARS_def)
  show "distinct (map name (vars s1))" "set (map name (vars s1)) = insert n (set (map name (vars s)))"
    if "distinct (map name (vars s))" "getVarAddress n s = Inr (a, s1)"
    using that findVar_mem[of "vars s" n]
    by (auto simp: getVarAddress_def findVar_None_iff split: option.splits if_splits)
  show "\<exists>a s1. getVarAddress n s = Inr (a, s1)"
    if "n \<in> set (map name (vars s)) \<or> varCount s < 100"
    using that findVar_None_iff[of "vars s" n]
    by (cases "findVar (vars s) n") (auto simp: getVarAddress_def MAX_VARS_def)
  assume "n \<notin> set (map name (vars s))" "varCount s \<ge> 100"
  then have g: "getVarAddress n s = Inl (Fatal TooManyVariables)"
    using findVar_None_iff[of "vars s" n] by (simp add: getVarAddress_def MAX_VARS_def)
  then show "getVarAddress n s = Inl (Fatal TooManyVariables)"
    "emitLoad n s = Inl (Fatal TooManyVariables)" "emitStore n s = Inl (Fatal TooManyVariables)"
    "andThen (getVarAddress n s) (\<lambda>(a, s2). emit (f a) s2) = Inl (Fatal TooManyVariables)"
    by (simp_all add: emitLoad_def emitStore_def)
next
  assume "getNextToken s = (t, s0)" "type t \<noteq> TOKEN_EOF"
    "compileStatement (ungetToken t s0) = Inl e"
  then show "compile s = Some (Inl e)" by (subst compile.simps) simp
qed

text \<open>
  After the hundred declarations \<^verbatim>\<open>int v0;\<close> ... \<^verbatim>\<open>int v99;\<close> the table is full: \<^verbatim>\<open>v7\<close>
  still resolves, to 23, and the declaration \<^verbatim>\<open>int w;\<close> of a further name stops the
  compilation.
\<close>

theorem symbol_table_capacity_witness:
  "\<exists>s t s0.
     compile (initState (concat (map (\<lambda>i. ''int v'' @ showInt (int i) @ '';'') [0..<100]))) =
       Some (Inr s) \<and>
     varCount s = 100 \<and> distinct (map name (vars s)) \<and>
     ''v7'' \<in> set (map name (vars s)) \<and> getVarAddress ''v7'' s = Inr (23, s) \<and>
     ''w'' \<notin> set (map name (vars s)) \<and> getVarAddress ''w'' s = Inl (Fatal TooManyVariables) \<and>
     emitStore ''w'' s = Inl (Fatal TooManyVariables) \<and>
     getNextToken (s\<lparr>input := ''int w;''\<rparr>) = (t, s0) \<and> type t \<noteq> TOKEN_EOF \<and>
     compileStatement (ungetToken t s0) = Inl (Fatal TooManyVariables) \<and>
     compile (s\<lparr>input := ''int w;''\<rparr>) = Some (Inl (Fatal TooManyVariables))"
proof -
  let ?p = "concat (map (\<lambda>i. ''int v'' @ showInt (int i) @ '';'') [0..<100])"
  note c1 = symbol_table_capacity[THEN conjunct2, THEN conjunct1, rule_format]
    and c2 = symbol_table_capacity[THEN conjunct2, THEN conjunct2, THEN conjunct1, rule_format]
    and c3 = symbol_table_capacity[THEN conjunct2, THEN conjunct2, THEN conjunct2,
               THEN conjunct1, rule_format]
    and c4 = symbol_table_capacity[THEN conjunct2, THEN conjunct2, THEN conjunct2,
               THEN conjunct2, rule_format]
  have "map_option (map_sum id (\<lambda>s. (varCount s, distinct (map name (vars s)),
            ''v7'' \<in> set (map name (vars s)), ''w'' \<in> set (map name (vars s)),
            findVar (vars s) ''v7'', hasToken s)))
          (compile (initState ?p)) = Some (Inr (100, True, True, False, Some 23, False))"
    by code_simp
  then obtain s where c: "compile (initState ?p) = Some (Inr s)"
    and r: "varCount s = 100" "distinct (map name (vars s))" "''v7'' \<in> set (map name (vars s))"
      "''w'' \<notin> set (map name (vars s))" "findVar (vars s) ''v7'' = Some 23"
      "\<not> hasToken s"
    by (cases "compile (initState ?p)"; cases "the (compile (initState ?p))") auto
  from c2[of "''v7''" s] r(3) obtain a s1 where g7: "getVarAddress ''v7'' s = Inr (a, s1)" by blast
  with r(5) have g7': "getVarAddress ''v7'' s = Inr (23, s)" by (simp add: getVarAddress_def)
  from c1[of s "''v7''" 23 s] r(2) g7' have d: "distinct (map name (vars s))" by blast
  from c3[of "''w''" s "\<lambda>a. ''STA '' @ showInt a"] r(1,4)
  have gw: "getVarAddress ''w'' s = Inl (Fatal TooManyVariables)"
    "emitStore ''w'' s = Inl (Fatal TooManyVariables)" by simp_all
  let ?u = "s\<lparr>input := ''int w;''\<rparr>"
  define t where "t = \<lparr> type = TOKEN_INT, text' = ''int'' \<rparr>"
  define s0 where "s0 = s\<lparr>input := '' w;''\<rparr>"
  have gt: "getNextToken ?u = (t, s0)" "type t \<noteq> TOKEN_EOF"
    using r(6) unfolding t_def s0_def
    by (simp_all add: getNextToken_def isspace_def isalpha_def isalnum_def isdigit_def
        MAX_TOKEN_LEN_def)
  let ?v = "s\<lparr>currentToken := t, hasToken := False, input := '';''\<rparr>"
  have gv: "getVarAddress ''w'' ?v = Inl (Fatal TooManyVariables)"
    using c3[of "''w''" ?v "\<lambda>a. ''STA '' @ showInt a"] r(1,4) by (simp add: varCount_def)
  have cs: "compileStatement (ungetToken t s0) = Inl (Fatal TooManyVariables)"
    using gv unfolding s0_def t_def
    by (subst compileStatement.simps)
       (simp add: getNextToken_def ungetToken_def compileDeclaration_def
          isspace_def isalpha_def isalnum_def isdigit_def MAX_TOKEN_LEN_def)
  have "compile ?u = Some (Inl (Fatal TooManyVariables))"
    using c4[of ?u t s0 "Fatal TooManyVariables"] gt cs by blast
  with c r(1-4) g7' gw gt cs show ?thesis by blast
qed

section \<open>A full output buffer\<close>

text \<open>
  The assignment \<^verbatim>\<open>x=1;\<close> emits two lines; a file that repeats it is compiled one
  statement after the other until the buffer has no row left.
\<close>

lemmas lexer_defs = getNextToken_def ungetToken_def isspace_def isalpha_def isalnum_def
  isdigit_def MAX_TOKEN_LEN_def singleCharType_def charText_def

lemma assign_statement:
  assumes "\<not> hasToken s"
    and "vars s = [\<lparr> name = ''x'', address = 16 \<rparr>] \<or> vars s = [] \<and> currentAddress s = 16"
  shows "compileStatement (s\<lparr>currentToken := \<lparr> type = TOKEN_IDENTIFIER, text' = ''x'' \<rparr>,
              hasToken := True, input := CHR ''='' # CHR ''1'' # CHR '';'' # rest\<rparr>) =
         (if asmLine s + 2 \<le> MAX_CODE_LINES
          then Inr (s\<lparr>vars := [\<lparr> name = ''x'', address = 16 \<rparr>],
                     currentAddress := (if vars s = [] then 17 else currentAddress s),
                     assembly := assembly s @ [''LDI 1'', ''STA 16''],
                     currentToken := \<lparr> type = TOKEN_SEMICOLON, text' = '';'' \<rparr>,
                     hasToken := False, input := rest\<rparr>)
          else Inl OutOfBounds)"
proof -
  have sh: "showInt 16 = ''16''" by (simp add: showInt_def digits.simps)
  from assms(2) show ?thesis
  proof
    assume v: "vars s = [\<lparr> name = ''x'', address = 16 \<rparr>]"
    show ?thesis
      by (subst compileStatement.simps)
         (simp add: lexer_defs compileAssignment_def compileExpression_def emit_def emitStore_def
            getVarAddress_def asmLine_def varCount_def MAX_VARS_def MAX_CODE_LINES_def
            ASM_LINE_LEN_def sh v)
  next
    assume v: "vars s = [] \<and> currentAddress s = 16"
    show ?thesis
      by (subst compileStatement.simps)
         (simp add: lexer_defs compileAssignment_def compileExpression_def emit_def emitStore_def
            getVarAddress_def asmLine_def varCount_def MAX_VARS_def MAX_CODE_LINES_def
            ASM_LINE_LEN_def sh v)
  qed
qed


lemma assign_compile:
  assumes "\<not> hasToken s" and "input s = ''x=1;'' @ rest"
    and "vars s = [\<lparr> name = ''x'', address = 16 \<rparr>] \<or> vars s = [] \<and> currentAddress s = 16"
  shows "compile s =
         (if asmLine s + 2 \<le> MAX_CODE_LINES
          then compile (s\<lparr>vars := [\<lparr> name = ''x'', address = 16 \<rparr>],
                     currentAddress := (if vars s = [] then 17 else currentAddress s),
                     assembly := assembly s @ [''LDI 1'', ''STA 16''],
                     currentToken := \<lparr> type = TOKEN_SEMICOLON, text' = '';'' \<rparr>,
                     hasToken := False, input := rest\<rparr>)
          else Some (Inl OutOfBounds))"
proof -
  let ?t = "\<lparr> type = TOKEN_IDENTIFIER, text' = ''x'' \<rparr>"
  have g: "getNextToken s = (?t, s\<lparr>input := CHR ''='' # CHR ''1'' # CHR '';'' # rest\<rparr>)"
    using assms(1,2) by (simp add: lexer_defs)
  have u: "ungetToken ?t (s\<lparr>input := CHR ''='' # CHR ''1'' # CHR '';'' # rest\<rparr>) =
      s\<lparr>currentToken := ?t, hasToken := True, input := CHR ''='' # CHR ''1'' # CHR '';'' # rest\<rparr>"
    by (simp add: ungetToken_def)
  have "compile s =
      (case compileStatement (ungetToken ?t (s\<lparr>input := CHR ''='' # CHR ''1'' # CHR '';'' # rest\<rparr>))
       of Inl e \<Rightarrow> Some (Inl e) | Inr s2 \<Rightarrow> compile s2)"
    by (subst compile.simps) (simp add: g)
  also have "\<dots> = (if asmLine s + 2 \<le> MAX_CODE_LINES
          then compile (s\<lparr>vars := [\<lparr> name = ''x'', address = 16 \<rparr>],
                     currentAddress := (if vars s = [] then 17 else currentAddress s),
                     assembly := assembly s @ [''LDI 1'', ''STA 16''],
                     currentToken := \<lparr> type = TOKEN_SEMICOLON, text' = '';'' \<rparr>,
                     hasToken := False, input := rest\<rparr>)
          else Some (Inl OutOfBounds))"
    unfolding u assign_statement[OF assms(1,3)] by simp
  finally show ?thesis .
qed

lemma repeat_overrun:
  assumes "\<not> hasToken s" and "input s = concat (replicate j ''x=1;'')"
    and "vars s = [\<lparr> name = ''x'', address = 16 \<rparr>] \<or> vars s = [] \<and> currentAddress s = 16"
    and "asmLine s \<le> MAX_CODE_LINES" and "MAX_CODE_LINES < asmLine s + 2 * j"
  shows "compile s = Some (Inl OutOfBounds)"
  using assms
proof (induction j arbitrary: s)
  case 0
  then show ?case by simp
next
  case (Suc j)
  from Suc.prems(2) have i: "input s = ''x=1;'' @ concat (replicate j ''x=1;'')" by simp
  note step = assign_compile[OF Suc.prems(1) i Suc.prems(3)]
  show ?case
  proof (cases "asmLine s + 2 \<le> MAX_CODE_LINES")
    case False
    with step show ?thesis by simp
  next
    case True
    let ?s' = "s\<lparr>vars := [\<lparr> name = ''x'', address = 16 \<rparr>],
                     currentAddress := (if vars s = [] then 17 else currentAddress s),
                     assembly := assembly s @ [''LDI 1'', ''STA 16''],
                     currentToken := \<lparr> type = TOKEN_SEMICOLON, text' = '';'' \<rparr>,
                     hasToken := False, input := concat (replicate j ''x=1;'')\<rparr>"
    have "compile ?s' = Some (Inl OutOfBounds)"
    proof (rule Suc.IH)
      show "\<not> hasToken ?s'" by simp
      show "input ?s' = concat (replicate j ''x=1;'')" by simp
      show "vars ?s' = [\<lparr> name = ''x'', address = 16 \<rparr>] \<or> vars ?s' = [] \<and> currentAddress ?s' = 16"
        by simp
      show "asmLine ?s' \<le> MAX_CODE_LINES" using True by (simp add: asmLine_def)
      show "MAX_CODE_LINES < asmLine ?s' + 2 * j" using Suc.prems(5) by (simp add: asmLine_def)
    qed
    with step True show ?thesis by (simp only: if_True)
  qed
qed

lemma repeat_overrun_init:
  "500 < j \<Longrightarrow> compile (initState (concat (replicate j ''x=1;''))) = Some (Inl OutOfBounds)"
  by (rule repeat_overrun[where j = j])
     (simp_all add: initState_def asmLine_def MAX_CODE_LINES_def)

text \<open>
  Claim C7 says that an \<^verbatim>\<open>emit\<close> beyond 1000 lines is a fatal capacity error. The source
  has no such check, unlike \<^verbatim>\<open>getVarAddress\<close> for the symbol table: on a file of 501
  assignments the 1001st line is stored past the end of \<^verbatim>\<open>assembly\<close>, and so is any
  line emitted when the buffer holds \<^verbatim>\<open>MAX_CODE_LINES\<close> lines. The outcome is the
  unchecked store \<open>OutOfBounds\<close>, not a diagnosed \<open>Fatal\<close> exit.
\<close>

theorem emit_overruns_buffer:
  "compile (initState (concat (replicate 501 ''x=1;''))) = Some (Inl OutOfBounds) \<and>
   emit line (s\<lparr>assembly := replicate MAX_CODE_LINES l\<rparr>) = Inl OutOfBounds"
proof
  show "compile (initState (concat (replicate 501 ''x=1;''))) = Some (Inl OutOfBounds)"
    by (rule repeat_overrun_init) simp
  show "emit line (s\<lparr>assembly := replicate MAX_CODE_LINES l\<rparr>) = Inl OutOfBounds"
    by (simp add: emit_def asmLine_def)
qed

section \<open>The driver loop on a closing brace\<close>

text \<open>
  With a closing brace in the pushback slot, \<^verbatim>\<open>compileStatement\<close> reads it, pushes it
  back and returns, and the driver loop reads it, pushes it back and calls
  \<^verbatim>\<open>compileStatement\<close> again: the state never changes.
\<close>

lemma compileStatement_RBRACE:
  "hasToken s \<Longrightarrow> type (currentToken s) = TOKEN_RBRACE \<Longrightarrow> compileStatement s = Inr s"
  by (simp add: compileStatement.simps getNextToken_def ungetToken_def)

lemma compile_stuck_aux:
  assumes a: "compile s0 = Some y0"
  shows "\<not> (hasToken s0 \<and> type (currentToken s0) = TOKEN_RBRACE)"
proof (rule compile.raw_induct[where P = "\<lambda>s y. \<not> (hasToken s \<and> type (currentToken s) = TOKEN_RBRACE)", OF _ a], goal_cases)
  case (1 compile' s y)
  show ?case
  proof
    assume st: "hasToken s \<and> type (currentToken s) = TOKEN_RBRACE"
    then have g: "getNextToken s = (currentToken s, s\<lparr>hasToken := False\<rparr>)"
      by (simp add: getNextToken_def)
    have u: "ungetToken (currentToken s) (s\<lparr>hasToken := False\<rparr>) = s"
      using st by (simp add: ungetToken_def)
    from 1(2) g st u have "compile' s = Some y"
      by (simp add: compileStatement_RBRACE)
    from 1(1)[OF this] st show False by simp
  qed
qed

lemma compile_stuck:
  "hasToken s \<Longrightarrow> type (currentToken s) = TOKEN_RBRACE \<Longrightarrow> compile s = None"
  using compile_stuck_aux[of s] by (cases "compile s") auto

text \<open>
  Claim C6 says that the driver loop ends on every input, by reaching the end of the
  file or by a fatal error. On the one-character file \<^verbatim>\<open>}\<close> it does neither: the
  loop of \<^verbatim>\<open>compile\<close> never returns.
\<close>

theorem compile_stray_brace_diverges: "compile (initState ''}'') = None"
proof -
  let ?t = "\<lparr> type = TOKEN_RBRACE, text' = ''}'' \<rparr>"
  let ?s1 = "(initState ''}'')\<lparr>input := []\<rparr>"
  have g: "getNextToken (initState ''}'') = (?t, ?s1)"
    by (simp add: getNextToken_def initState_def isspace_def isalpha_def isdigit_def
        singleCharType_def charText_def)
  have c: "compileStatement (ungetToken ?t ?s1) = Inr (ungetToken ?t ?s1)"
    by (rule compileStatement_RBRACE) (simp_all add: ungetToken_def)
  have "compile (initState ''}'') = compile (ungetToken ?t ?s1)"
    by (subst compile.simps) (simp add: g c)
  also have "\<dots> = None" by (rule compile_stuck) (simp_all add: ungetToken_def)
  finally show ?thesis .
qed

section \<open>End-to-end compilation\<close>

text \<open>
  Claim C1. Compiling \<^verbatim>\<open>int x; x = 5; if (x == 5) { x = x + 1; }\<close> from the initial
  state (next free address 16, label counter 0) runs to completion, and the output
  buffer then holds exactly the eleven lines \<^verbatim>\<open>LDI 5\<close>, \<^verbatim>\<open>STA 16\<close>, \<^verbatim>\<open>LDA 16\<close>,
  \<^verbatim>\<open>SUBI 5\<close>, \<^verbatim>\<open>JZ L0\<close>, \<^verbatim>\<open>JMP L1\<close>, \<^verbatim>\<open>L0:\<close>, \<^verbatim>\<open>LDA 16\<close>, \<^verbatim>\<open>ADDI 1\<close>, \<^verbatim>\<open>STA 16\<close>,
  \<^verbatim>\<open>L1:\<close>, in this order.
\<close>

theorem compile_if_example:
  "map_option (map_sum id assembly)
     (compile (initState ''int x; x = 5; if (x == 5) { x = x + 1; }'')) =
   Some (Inr [''LDI 5'', ''STA 16'', ''LDA 16'', ''SUBI 5'', ''JZ L0'', ''JMP L1'', ''L0:'',
              ''LDA 16'', ''ADDI 1'', ''STA 16'', ''L1:''])"
  by code_simp

end
